theory Spec2Isabelle
  imports Complex_Main
begin

section \<open>Game logic of \<open>tictactoewithgui.py\<close>\<close>

subsection \<open>Data model\<close>

text \<open>
  A board is a Python list of one-character strings, mutated in place. The three markers
  are module constants. Python exceptions are values; a call returns the board as it is
  left behind (also when an exception escapes), together with either the exception or
  the returned value.
\<close>

datatype py_error = IndexError | ValueError

type_synonym board = "string list"

type_synonym 'a run = "board \<times> (py_error + 'a)"

type_synonym search = "board \<Rightarrow> string \<Rightarrow> bool \<Rightarrow> int \<Rightarrow> int \<Rightarrow> (int \<times> nat option) run option"

definition EMPTY :: string where
  "EMPTY = '' ''"

definition HUMAN :: string where
  "HUMAN = ''X''"

definition AI :: string where
  "AI = ''O''"

definition WIN_LINES :: "(nat \<times> nat \<times> nat) list" where
  "WIN_LINES =
     [(0, 1, 2), (3, 4, 5), (6, 7, 8),
      (0, 3, 6), (1, 4, 7), (2, 5, 8),
      (0, 4, 8), (2, 4, 6)]"

text \<open>\<open>board[i]\<close> for a non-negative index: IndexError beyond the end.\<close>

definition getitem :: "'a list \<Rightarrow> nat \<Rightarrow> py_error + 'a" where
  "getitem xs i = (if i < length xs then Inr (xs ! i) else Inl IndexError)"

text \<open>\<open>board[i] = v\<close> for a non-negative index: IndexError beyond the end.\<close>

definition setitem :: "'a list \<Rightarrow> nat \<Rightarrow> 'a \<Rightarrow> py_error + 'a list" where
  "setitem xs i v = (if i < length xs then Inr (xs[i := v]) else Inl IndexError)"

subsection \<open>Outcome evaluation\<close>

text \<open>\<open>[i for i,v in enumerate(board) if v == EMPTY]\<close>\<close>

definition available_moves :: "board \<Rightarrow> nat list" where
  "available_moves board = map fst (filter (\<lambda>(i, v). v = EMPTY) (enumerate 0 board))"

text \<open>
  The loop of \<open>winner\<close> over the win lines. The chained comparison
  \<open>board[a] == board[b] == board[c] != EMPTY\<close> reads \<open>board[a]\<close> and \<open>board[b]\<close>, and
  reads \<open>board[c]\<close> only when the first two are equal. After the loop,
  \<open>EMPTY not in board\<close> decides between \<open>"Draw"\<close> and \<open>None\<close>.
\<close>

fun winner_loop :: "(nat \<times> nat \<times> nat) list \<Rightarrow> board \<Rightarrow> py_error + string option" where
  "winner_loop [] board = Inr (if EMPTY \<notin> set board then Some ''Draw'' else None)"
| "winner_loop ((a, b, c) # ls) board =
     (case getitem board a of
        Inl e \<Rightarrow> Inl e
      | Inr x \<Rightarrow>
         (case getitem board b of
            Inl e \<Rightarrow> Inl e
          | Inr y \<Rightarrow>
             (if x \<noteq> y then winner_loop ls board
              else (case getitem board c of
                      Inl e \<Rightarrow> Inl e
                    | Inr z \<Rightarrow>
                       (if y = z \<and> z \<noteq> EMPTY
                        then (case getitem board a of Inl e \<Rightarrow> Inl e | Inr r \<Rightarrow> Inr (Some r))
                        else winner_loop ls board)))))"

definition winner :: "board \<Rightarrow> py_error + string option" where
  "winner board = winner_loop WIN_LINES board"

definition score_for :: "string \<Rightarrow> string option \<Rightarrow> int" where
  "score_for player result =
     (if result = Some ''Draw'' \<or> result = None then 0
      else if result = Some player then 1 else - 1)"

subsection \<open>Search\<close>

text \<open>
  The two \<open>for\<close> loops of \<open>minimax\<close>, over the moves still to try. \<open>rec\<close> is the
  recursive call. Each iteration writes the cell, recurses on the written board, and
  clears the cell on the board the recursive call left behind; an exception leaves the
  loop at once, with no clearing. \<open>break\<close> returns the running best.
\<close>

fun max_loop ::
  "search \<Rightarrow> nat list \<Rightarrow> board \<Rightarrow> string \<Rightarrow> int \<Rightarrow> int \<Rightarrow> int \<Rightarrow> nat option \<Rightarrow>
   (int \<times> nat option) run option" where
  "max_loop rec [] board player alpha beta max_eval best_move =
     Some (board, Inr (max_eval, best_move))"
| "max_loop rec (m # ms) board player alpha beta max_eval best_move =
     (case setitem board m player of
        Inl e \<Rightarrow> Some (board, Inl e)
      | Inr board1 \<Rightarrow>
         (case rec board1 (if player = AI then HUMAN else AI) False alpha beta of
            None \<Rightarrow> None
          | Some (board2, Inl e) \<Rightarrow> Some (board2, Inl e)
          | Some (board2, Inr (eval_score, _)) \<Rightarrow>
             (case setitem board2 m EMPTY of
                Inl e \<Rightarrow> Some (board2, Inl e)
              | Inr board3 \<Rightarrow>
                 (let max_eval' = (if eval_score > max_eval then eval_score else max_eval);
                      best_move' = (if eval_score > max_eval then Some m else best_move);
                      alpha' = max alpha eval_score
                  in if beta \<le> alpha' then Some (board3, Inr (max_eval', best_move'))
                     else max_loop rec ms board3 player alpha' beta max_eval' best_move'))))"

fun min_loop ::
  "search \<Rightarrow> nat list \<Rightarrow> board \<Rightarrow> string \<Rightarrow> int \<Rightarrow> int \<Rightarrow> int \<Rightarrow> nat option \<Rightarrow>
   (int \<times> nat option) run option" where
  "min_loop rec [] board player alpha beta min_eval best_move =
     Some (board, Inr (min_eval, best_move))"
| "min_loop rec (m # ms) board player alpha beta min_eval best_move =
     (case setitem board m player of
        Inl e \<Rightarrow> Some (board, Inl e)
      | Inr board1 \<Rightarrow>
         (case rec board1 (if player = AI then HUMAN else AI) True alpha beta of
            None \<Rightarrow> None
          | Some (board2, Inl e) \<Rightarrow> Some (board2, Inl e)
          | Some (board2, Inr (eval_score, _)) \<Rightarrow>
             (case setitem board2 m EMPTY of
                Inl e \<Rightarrow> Some (board2, Inl e)
              | Inr board3 \<Rightarrow>
                 (let min_eval' = (if eval_score < min_eval then eval_score else min_eval);
                      best_move' = (if eval_score < min_eval then Some m else best_move);
                      beta' = min beta eval_score
                  in if beta' \<le> alpha then Some (board3, Inr (min_eval', best_move'))
                     else min_loop rec ms board3 player alpha beta' min_eval' best_move'))))"

text \<open>
  \<open>minimax\<close>, with the depth of the Python call stack as fuel: \<open>None\<close> is a run that
  would need a deeper stack than the fuel allows.
\<close>

primrec minimax :: "nat \<Rightarrow> search" where
  "minimax 0 board player maximizing alpha beta = None"
| "minimax (Suc n) board player maximizing alpha beta =
     (case winner board of
        Inl e \<Rightarrow> Some (board, Inl e)
      | Inr (Some w) \<Rightarrow> Some (board, Inr (score_for AI (Some w), None))
      | Inr None \<Rightarrow>
         if maximizing
         then max_loop (minimax n) (available_moves board) board player alpha beta (- 999) None
         else min_loop (minimax n) (available_moves board) board player alpha beta 999 None)"

subsection \<open>Move choice and win probability\<close>

text \<open>
  \<open>max(outcomes)\<close> and \<open>outcomes.index(best_score)\<close>: both raise ValueError, the first
  on an empty list, the second when the value is absent.
\<close>

fun py_max :: "int list \<Rightarrow> py_error + int" where
  "py_max [] = Inl ValueError"
| "py_max (x # xs) = Inr (fold max xs x)"

fun py_index :: "int list \<Rightarrow> int \<Rightarrow> py_error + nat" where
  "py_index [] v = Inl ValueError"
| "py_index (x # xs) v =
     (if x = v then Inr 0
      else (case py_index xs v of Inl e \<Rightarrow> Inl e | Inr i \<Rightarrow> Inr (Suc i)))"

text \<open>
  Lines 81 to 84 of \<open>ai_move\<close>: \<open>total\<close>, \<open>wins\<close>, \<open>draws\<close> and the conditional
  expression for \<open>prob\<close>. The quotient is taken in the reals; Python rounds it to the
  nearest double (the numerator \<open>wins + 0.5*draws\<close> is exact).
\<close>

definition win_probability :: "int list \<Rightarrow> real" where
  "win_probability outcomes =
     (let total = length outcomes;
          wins = count_list outcomes 1;
          draws = count_list outcomes 0
      in if total \<noteq> 0 then (real wins + 0.5 * real draws) / real total else 0)"

text \<open>The scoring loop of \<open>ai_move\<close>; \<open>n\<close> is the fuel handed to each search.\<close>

fun ai_loop :: "nat \<Rightarrow> nat list \<Rightarrow> board \<Rightarrow> int list \<Rightarrow> (int list) run option" where
  "ai_loop n [] board outcomes = Some (board, Inr outcomes)"
| "ai_loop n (m # ms) board outcomes =
     (case setitem board m AI of
        Inl e \<Rightarrow> Some (board, Inl e)
      | Inr board1 \<Rightarrow>
         (case minimax n board1 HUMAN False (- 999) 999 of
            None \<Rightarrow> None
          | Some (board2, Inl e) \<Rightarrow> Some (board2, Inl e)
          | Some (board2, Inr (score, _)) \<Rightarrow>
             (case setitem board2 m EMPTY of
                Inl e \<Rightarrow> Some (board2, Inl e)
              | Inr board3 \<Rightarrow> ai_loop n ms board3 (outcomes @ [score]))))"

definition ai_move :: "nat \<Rightarrow> board \<Rightarrow> (nat \<times> real) run option" where
  "ai_move n board =
     (let moves = available_moves board in
      case ai_loop n moves board [] of
        None \<Rightarrow> None
      | Some (board1, Inl e) \<Rightarrow> Some (board1, Inl e)
      | Some (board1, Inr outcomes) \<Rightarrow>
         (let prob = win_probability outcomes in
          case py_max outcomes of
            Inl e \<Rightarrow> Some (board1, Inl e)
          | Inr best_score \<Rightarrow>
             (case py_index outcomes best_score of
                Inl e \<Rightarrow> Some (board1, Inl e)
              | Inr best_index \<Rightarrow>
                 (case getitem moves best_index of
                    Inl e \<Rightarrow> Some (board1, Inl e)
                  | Inr move \<Rightarrow> Some (board1, Inr (move, prob))))))"

subsection \<open>Self-play\<close>

text \<open>
  Modelled from the spec: the self-play harness of the optimality property is not part of
  the source. A game alternates as the event loop of \<open>main\<close> does: after every move
  \<open>winner\<close> decides whether the game is over; the automated side writes \<open>AI\<close> into
  the cell \<open>ai_move\<close> returns; the opponent writes \<open>HUMAN\<close> into the cell the strategy
  \<open>opp\<close> names. \<open>k\<close> bounds the number of plies, \<open>n\<close> is the search fuel. The
  result is the outcome \<open>winner\<close> reports at the end.
\<close>

fun self_play :: "nat \<Rightarrow> nat \<Rightarrow> (board \<Rightarrow> nat) \<Rightarrow> board \<Rightarrow> bool \<Rightarrow> (py_error + string) option" where
  "self_play 0 n opp board ai_turn = None"
| "self_play (Suc k) n opp board ai_turn =
     (case winner board of
        Inl e \<Rightarrow> Some (Inl e)
      | Inr (Some w) \<Rightarrow> Some (Inr w)
      | Inr None \<Rightarrow>
         (if ai_turn then
            (case ai_move n board of
               None \<Rightarrow> None
             | Some (board1, Inl e) \<Rightarrow> Some (Inl e)
             | Some (board1, Inr (move, prob)) \<Rightarrow>
                (case setitem board1 move AI of
                   Inl e \<Rightarrow> Some (Inl e)
                 | Inr board2 \<Rightarrow> self_play k n opp board2 False))
          else
            (case setitem board (opp board) HUMAN of
               Inl e \<Rightarrow> Some (Inl e)
             | Inr board1 \<Rightarrow> self_play k n opp board1 True)))"

text \<open>
  Modelled from the spec: the minimax-optimal opponent of the self-play harness, absent
  from the source. It plays the move \<open>minimax\<close> reports for \<open>HUMAN\<close>, minimizing,
  over the full window.
\<close>

definition optimal_reply :: "nat \<Rightarrow> board \<Rightarrow> nat" where
  "optimal_reply n board =
     (case minimax n board HUMAN False (- 999) 999 of
        Some (_, Inr (_, Some m)) \<Rightarrow> m
      | _ \<Rightarrow> 0)"

subsection \<open>Unpruned minimax\<close>

text \<open>
  The reference the search is compared with: exhaustive minimax without a window. The
  value of an undecided board is the greatest (for the maximizer) or least (for the
  minimizer) value among the boards one move away; the move is the first one, in the
  order of \<open>available_moves\<close>, that attains it. Boards on which \<open>winner\<close> raises are
  not game positions and get the value 0.
\<close>

function plain_value :: "board \<Rightarrow> string \<Rightarrow> bool \<Rightarrow> int" where
  "plain_value board player maximizing =
     (case winner board of
        Inl e \<Rightarrow> 0
      | Inr (Some w) \<Rightarrow> score_for AI (Some w)
      | Inr None \<Rightarrow>
         (let values = map (\<lambda>m. plain_value (board[m := player])
                                   (if player = AI then HUMAN else AI) (\<not> maximizing))
                           (available_moves board)
          in if maximizing then Max (set values) else Min (set values)))"
  by pat_completeness auto
termination
proof (relation "measure (\<lambda>(board, player, maximizing).
         2 * count_list board EMPTY + (if player = EMPTY then 1 else 0))", goal_cases)
  case 1
  show ?case by simp
next
  case (2 board player maximizing x2 m)
  have mem: "m < length board \<and> board ! m = EMPTY"
    using 2(3) by (auto simp: available_moves_def enumerate_eq_zip in_set_zip)
  have ai: "AI \<noteq> EMPTY" "HUMAN \<noteq> EMPTY"
    by (simp_all add: AI_def HUMAN_def EMPTY_def)
  have cnt: "i < length xs \<Longrightarrow> xs ! i = EMPTY \<Longrightarrow> v \<noteq> EMPTY \<Longrightarrow>
      Suc (count_list (xs[i := v]) EMPTY) = count_list xs EMPTY" for xs :: board and i v
    by (induction xs arbitrary: i) (auto split: nat.splits)
  show ?case
  proof (cases "player = EMPTY")
    case True
    then have "board[m := player] = board"
      using mem by (simp add: list_update_same_conv)
    with True ai show ?thesis by simp
  next
    case False
    from cnt[OF _ _ False, of m board] mem
    have "Suc (count_list (board[m := player]) EMPTY) = count_list board EMPTY" by simp
    with False ai show ?thesis by auto
  qed
qed

declare plain_value.simps [simp del]

definition plain_move :: "board \<Rightarrow> string \<Rightarrow> bool \<Rightarrow> nat option" where
  "plain_move board player maximizing =
     (case winner board of
        Inr None \<Rightarrow>
          find (\<lambda>m. plain_value (board[m := player]) (if player = AI then HUMAN else AI)
                       (\<not> maximizing) = plain_value board player maximizing)
               (available_moves board)
      | _ \<Rightarrow> None)"

definition plain_minimax :: "board \<Rightarrow> string \<Rightarrow> bool \<Rightarrow> int \<times> nat option" where
  "plain_minimax board player maximizing =
     (plain_value board player maximizing, plain_move board player maximizing)"

subsection \<open>Auxiliary notions\<close>

text \<open>What a search that returns normally returns.\<close>

definition search_result :: "nat \<Rightarrow> board \<Rightarrow> string \<Rightarrow> bool \<Rightarrow> int \<Rightarrow> int \<Rightarrow> int \<times> nat option" where
  "search_result n board player maximizing alpha beta =
     (case minimax n board player maximizing alpha beta of
        Some (_, Inr r) \<Rightarrow> r
      | _ \<Rightarrow> (0, None))"

text \<open>The score of the full-window search, as \<open>ai_move\<close> and the root of a game use it.\<close>

definition search_score :: "nat \<Rightarrow> board \<Rightarrow> string \<Rightarrow> bool \<Rightarrow> int" where
  "search_score n board player maximizing =
     fst (search_result n board player maximizing (- 999) 999)"

text \<open>
  The two loops of \<open>minimax\<close> with the board left out: \<open>f m alpha beta\<close> stands for the
  score the recursive call returns after move \<open>m\<close>.
\<close>

fun max_scan :: "(nat \<Rightarrow> int \<Rightarrow> int \<Rightarrow> int) \<Rightarrow> nat list \<Rightarrow> int \<Rightarrow> int \<Rightarrow> int \<Rightarrow> nat option \<Rightarrow>
    int \<times> nat option" where
  "max_scan f [] alpha beta max_eval best_move = (max_eval, best_move)"
| "max_scan f (m # ms) alpha beta max_eval best_move =
     (let eval_score = f m alpha beta;
          max_eval' = (if eval_score > max_eval then eval_score else max_eval);
          best_move' = (if eval_score > max_eval then Some m else best_move);
          alpha' = max alpha eval_score
      in if beta \<le> alpha' then (max_eval', best_move')
         else max_scan f ms alpha' beta max_eval' best_move')"

fun min_scan :: "(nat \<Rightarrow> int \<Rightarrow> int \<Rightarrow> int) \<Rightarrow> nat list \<Rightarrow> int \<Rightarrow> int \<Rightarrow> int \<Rightarrow> nat option \<Rightarrow>
    int \<times> nat option" where
  "min_scan f [] alpha beta min_eval best_move = (min_eval, best_move)"
| "min_scan f (m # ms) alpha beta min_eval best_move =
     (let eval_score = f m alpha beta;
          min_eval' = (if eval_score < min_eval then eval_score else min_eval);
          best_move' = (if eval_score < min_eval then Some m else best_move);
          beta' = min beta eval_score
      in if beta' \<le> alpha then (min_eval', best_move')
         else min_scan f ms alpha beta' min_eval' best_move')"

text \<open>
  A scan without a window: the running best of the values \<open>g m\<close>, replaced only by a
  strictly better one.
\<close>

fun best_scan :: "(int \<Rightarrow> int \<Rightarrow> bool) \<Rightarrow> (nat \<Rightarrow> int) \<Rightarrow> nat list \<Rightarrow> int \<Rightarrow> nat option \<Rightarrow>
    int \<times> nat option" where
  "best_scan better g [] best best_move = (best, best_move)"
| "best_scan better g (m # ms) best best_move =
     (if better (g m) best then best_scan better g ms (g m) (Some m)
      else best_scan better g ms best best_move)"

text \<open>The accuracy of a search with window \<open>(a, b)\<close>: \<open>r\<close> returned, \<open>v\<close> the value.\<close>

definition within_window :: "int \<Rightarrow> int \<Rightarrow> int \<Rightarrow> int \<Rightarrow> bool" where
  "within_window a b v r = ((r \<le> a \<longrightarrow> v \<le> r) \<and> (a < r \<and> r < b \<longrightarrow> r = v) \<and> (b \<le> r \<longrightarrow> r \<le> v))"

text \<open>The depth of the call stack a search of \<open>board\<close> for \<open>player\<close> needs at most.\<close>

definition depth :: "board \<Rightarrow> string \<Rightarrow> nat" where
  "depth board player = count_list board EMPTY + (if player = EMPTY then 1 else 0)"

text \<open>
  Shapes for evaluating the functions on a board written out cell by cell: three cells
  that hold the same marker, not \<open>EMPTY\<close>; and a conditional cons.
\<close>

definition same3 :: "string \<Rightarrow> string \<Rightarrow> string \<Rightarrow> bool" where
  "same3 a b c = (a = b \<and> b = c \<and> c \<noteq> EMPTY)"

definition cons_if :: "bool \<Rightarrow> nat \<Rightarrow> nat list \<Rightarrow> nat list" where
  "cons_if c x xs = (if c then x # xs else xs)"

text \<open>Side \<open>s\<close> holds the three cells of a line; some line of \<open>WIN_LINES\<close> is held.\<close>

definition line_held :: "board \<Rightarrow> string \<Rightarrow> nat \<times> nat \<times> nat \<Rightarrow> bool" where
  "line_held board s l = (case l of (a, b, c) \<Rightarrow> board ! a = s \<and> board ! b = s \<and> board ! c = s)"

definition holds_line :: "board \<Rightarrow> string \<Rightarrow> bool" where
  "holds_line board s = (s \<noteq> EMPTY \<and> (\<exists>l \<in> set WIN_LINES. line_held board s l))"

section \<open>Properties of the game logic\<close>

subsection \<open>Markers, moves and depth\<close>

lemma cell_neq:
  "EMPTY \<noteq> HUMAN" "EMPTY \<noteq> AI" "HUMAN \<noteq> EMPTY" "HUMAN \<noteq> AI" "AI \<noteq> EMPTY" "AI \<noteq> HUMAN"
  by (simp_all add: EMPTY_def HUMAN_def AI_def)

lemma other_not_empty: "(if player = AI then HUMAN else AI) \<noteq> EMPTY"
  by (simp add: cell_neq)

lemma set_available_moves:
  "set (available_moves board) = {i. i < length board \<and> board ! i = EMPTY}"
  by (force simp: available_moves_def in_set_enumerate_eq image_iff)

lemma sorted_available_moves: "sorted (available_moves board)"
  unfolding available_moves_def
  by (rule sorted_filter) (simp add: map_fst_enumerate)

lemma distinct_available_moves: "distinct (available_moves board)"
  unfolding available_moves_def
  by (rule distinct_map_filter) (simp add: map_fst_enumerate)

lemma available_moves_empty_iff: "available_moves board = [] \<longleftrightarrow> EMPTY \<notin> set board"
proof -
  have "available_moves board = [] \<longleftrightarrow> set (available_moves board) = {}" by simp
  also have "\<dots> \<longleftrightarrow> EMPTY \<notin> set board"
    unfolding set_available_moves by (auto simp: in_set_conv_nth)
  finally show ?thesis .
qed

lemma count_list_update:
  "i < length xs \<Longrightarrow> xs ! i = EMPTY \<Longrightarrow> v \<noteq> EMPTY \<Longrightarrow>
   Suc (count_list (xs[i := v]) EMPTY) = count_list xs EMPTY"
  by (induction xs arbitrary: i) (auto split: nat.splits)

lemma depth_step:
  assumes "m \<in> set (available_moves board)" and "depth board player < Suc n"
  shows "depth (board[m := player]) (if player = AI then HUMAN else AI) < n"
proof -
  from assms(1) have mem: "m < length board" "board ! m = EMPTY"
    by (simp_all add: set_available_moves)
  show ?thesis
  proof (cases "player = EMPTY")
    case True
    then have "board[m := player] = board"
      using mem by (simp add: list_update_same_conv)
    with True assms(2) show ?thesis by (simp add: depth_def cell_neq)
  next
    case False
    from count_list_update[OF mem False] assms(2) False
    show ?thesis by (auto simp: depth_def cell_neq)
  qed
qed

lemma depth_le: "depth board player \<le> length board + 1"
  using count_le_length[of board EMPTY] by (simp add: depth_def)

subsection \<open>The outcome evaluator\<close>

lemma winner_loop_step:
  "a < length board \<Longrightarrow> b < length board \<Longrightarrow> c < length board \<Longrightarrow>
   winner_loop ((a, b, c) # ls) board =
     (if board ! a = board ! b \<and> board ! b = board ! c \<and> board ! c \<noteq> EMPTY
      then Inr (Some (board ! a)) else winner_loop ls board)"
  by (simp add: getitem_def)

lemma winner_loop_find:
  assumes "\<forall>(a, b, c) \<in> set ls. a < length board \<and> b < length board \<and> c < length board"
  shows "winner_loop ls board =
     Inr (case find (\<lambda>(a, b, c). board ! a = board ! b \<and> board ! b = board ! c \<and>
                        board ! c \<noteq> EMPTY) ls of
            Some (a, b, c) \<Rightarrow> Some (board ! a)
          | None \<Rightarrow> if EMPTY \<notin> set board then Some ''Draw'' else None)"
  using assms
proof (induction ls)
  case Nil
  show ?case by simp
next
  case (Cons l ls)
  obtain a b c where l: "l = (a, b, c)" by (cases l) auto
  from Cons.prems l have "a < length board" "b < length board" "c < length board" by auto
  from winner_loop_step[OF this] Cons l show ?case by simp
qed

lemma winner_find:
  assumes "length board = 9"
  shows "winner board =
     Inr (case find (\<lambda>(a, b, c). board ! a = board ! b \<and> board ! b = board ! c \<and>
                        board ! c \<noteq> EMPTY) WIN_LINES of
            Some (a, b, c) \<Rightarrow> Some (board ! a)
          | None \<Rightarrow> if EMPTY \<notin> set board then Some ''Draw'' else None)"
  unfolding winner_def
  by (rule winner_loop_find) (simp add: WIN_LINES_def assms)

lemma winner_total: "length board = 9 \<Longrightarrow> \<exists>w. winner board = Inr w"
  by (simp add: winner_find)

lemma winner_loop_None: "winner_loop ls board = Inr None \<Longrightarrow> EMPTY \<in> set board"
proof (induction ls)
  case Nil
  then show ?case by (simp split: if_splits)
next
  case (Cons l ls)
  obtain a b c where l: "l = (a, b, c)" by (cases l) auto
  from Cons l show ?case by (auto split: sum.splits if_splits)
qed

lemma winner_None: "winner board = Inr None \<Longrightarrow> EMPTY \<in> set board"
  unfolding winner_def by (rule winner_loop_None)

lemma winner_None_moves: "winner board = Inr None \<Longrightarrow> available_moves board \<noteq> []"
  by (simp add: available_moves_empty_iff winner_None)

lemma score_for_range: "score_for player result \<in> {- 1, 0, 1}"
  by (simp add: score_for_def)

subsection \<open>The loops leave the board as it was\<close>

lemma max_loop_scan:
  assumes "\<forall>m \<in> set ms. m < length board \<and> board ! m = EMPTY \<and>
     (\<forall>a b. \<exists>r. rec (board[m := player]) (if player = AI then HUMAN else AI) False a b =
                  Some (board[m := player], Inr r) \<and> fst r = f m a b)"
  shows "max_loop rec ms board player alpha beta max_eval best_move =
     Some (board, Inr (max_scan f ms alpha beta max_eval best_move))"
  using assms
proof (induction ms arbitrary: alpha max_eval best_move)
  case Nil
  show ?case by simp
next
  case (Cons m ms)
  from Cons.prems have m: "m < length board" "board ! m = EMPTY" by simp_all
  from Cons.prems obtain r where r:
    "rec (board[m := player]) (if player = AI then HUMAN else AI) False alpha beta =
       Some (board[m := player], Inr r)" "fst r = f m alpha beta"
    by (metis list.set_intros(1))
  have rest: "\<And>a e bm. max_loop rec ms board player a beta e bm =
     Some (board, Inr (max_scan f ms a beta e bm))"
    using Cons by simp
  have undo: "board[m := EMPTY] = board"
    using m by (simp add: list_update_same_conv)
  show ?case
    using m r rest
    by (cases r) (simp add: setitem_def undo Let_def)
qed

lemma min_loop_scan:
  assumes "\<forall>m \<in> set ms. m < length board \<and> board ! m = EMPTY \<and>
     (\<forall>a b. \<exists>r. rec (board[m := player]) (if player = AI then HUMAN else AI) True a b =
                  Some (board[m := player], Inr r) \<and> fst r = f m a b)"
  shows "min_loop rec ms board player alpha beta min_eval best_move =
     Some (board, Inr (min_scan f ms alpha beta min_eval best_move))"
  using assms
proof (induction ms arbitrary: beta min_eval best_move)
  case Nil
  show ?case by simp
next
  case (Cons m ms)
  from Cons.prems have m: "m < length board" "board ! m = EMPTY" by simp_all
  from Cons.prems obtain r where r:
    "rec (board[m := player]) (if player = AI then HUMAN else AI) True alpha beta =
       Some (board[m := player], Inr r)" "fst r = f m alpha beta"
    by (metis list.set_intros(1))
  have rest: "\<And>b e bm. min_loop rec ms board player alpha b e bm =
     Some (board, Inr (min_scan f ms alpha b e bm))"
    using Cons by simp
  have undo: "board[m := EMPTY] = board"
    using m by (simp add: list_update_same_conv)
  show ?case
    using m r rest
    by (cases r) (simp add: setitem_def undo Let_def)
qed

subsection \<open>The search returns, and returns the board it was given\<close>

lemma search_result_eq:
  "minimax n board player maximizing alpha beta = Some (board', Inr r) \<Longrightarrow>
   search_result n board player maximizing alpha beta = r"
  by (simp add: search_result_def)

lemma children_return:
  assumes len: "length board = 9"
    and dep: "depth board player < Suc n"
    and IH: "\<And>board player maximizing alpha beta.
       length board = 9 \<Longrightarrow> depth board player < n \<Longrightarrow>
       \<exists>r. minimax n board player maximizing alpha beta = Some (board, Inr r)"
  shows "\<forall>m \<in> set (available_moves board). m < length board \<and> board ! m = EMPTY \<and>
     (\<forall>a b. \<exists>r. minimax n (board[m := player]) (if player = AI then HUMAN else AI) mx a b =
                  Some (board[m := player], Inr r) \<and>
                fst r = fst (search_result n (board[m := player])
                               (if player = AI then HUMAN else AI) mx a b))"
proof
  fix m assume m: "m \<in> set (available_moves board)"
  have "\<exists>r. minimax n (board[m := player]) (if player = AI then HUMAN else AI) mx a b =
                  Some (board[m := player], Inr r) \<and>
                fst r = fst (search_result n (board[m := player])
                               (if player = AI then HUMAN else AI) mx a b)" for a b
  proof -
    from IH[of "board[m := player]" "if player = AI then HUMAN else AI" mx a b]
      depth_step[OF m dep] len
    obtain r where "minimax n (board[m := player]) (if player = AI then HUMAN else AI) mx a b =
                  Some (board[m := player], Inr r)" by auto
    then show ?thesis by (auto simp: search_result_eq)
  qed
  with m show "m < length board \<and> board ! m = EMPTY \<and>
     (\<forall>a b. \<exists>r. minimax n (board[m := player]) (if player = AI then HUMAN else AI) mx a b =
                  Some (board[m := player], Inr r) \<and>
                fst r = fst (search_result n (board[m := player])
                               (if player = AI then HUMAN else AI) mx a b))"
    by (simp add: set_available_moves)
qed

lemma minimax_returns:
  "length board = 9 \<Longrightarrow> depth board player < n \<Longrightarrow>
   \<exists>r. minimax n board player maximizing alpha beta = Some (board, Inr r)"
proof (induction n arbitrary: board player maximizing alpha beta)
  case 0
  then show ?case by simp
next
  case (Suc n)
  from winner_total[OF Suc.prems(1)] obtain w where w: "winner board = Inr w" ..
  show ?case
  proof (cases w)
    case (Some s)
    with w show ?thesis by simp
  next
    case None
    have ch: "\<forall>m \<in> set (available_moves board). m < length board \<and> board ! m = EMPTY \<and>
     (\<forall>a b. \<exists>r. minimax n (board[m := player]) (if player = AI then HUMAN else AI) mx a b =
                  Some (board[m := player], Inr r) \<and>
                fst r = fst (search_result n (board[m := player])
                               (if player = AI then HUMAN else AI) mx a b))" for mx
      by (rule children_return[OF Suc.prems(1) Suc.prems(2)]) (rule Suc.IH)
    show ?thesis
    proof (cases maximizing)
      case True
      from max_loop_scan[where rec = "minimax n" and f = "\<lambda>m a b. fst (search_result n (board[m := player]) (if player = AI then HUMAN else AI) False a b)", OF ch[of False]] w None True
      show ?thesis by simp
    next
      case False
      from min_loop_scan[where rec = "minimax n" and f = "\<lambda>m a b. fst (search_result n (board[m := player]) (if player = AI then HUMAN else AI) True a b)", OF ch[of True]] w None False
      show ?thesis by simp
    qed
  qed
qed

lemma minimax_result:
  assumes "length board = 9" and "depth board player < n"
  shows "minimax n board player maximizing alpha beta =
     Some (board, Inr (search_result n board player maximizing alpha beta))"
proof -
  from minimax_returns[OF assms] obtain r where
    "minimax n board player maximizing alpha beta = Some (board, Inr r)" ..
  then show ?thesis by (simp add: search_result_def)
qed

lemma search_result_terminal:
  "winner board = Inr (Some w) \<Longrightarrow>
   search_result (Suc n) board player maximizing alpha beta = (score_for AI (Some w), None)"
  by (simp add: search_result_def)

lemma search_result_max:
  assumes "length board = 9" and "depth board player < Suc n" and "winner board = Inr None"
  shows "search_result (Suc n) board player True alpha beta =
     max_scan (\<lambda>m a b. fst (search_result n (board[m := player])
                               (if player = AI then HUMAN else AI) False a b))
       (available_moves board) alpha beta (- 999) None"
proof -
  have ch: "\<forall>m \<in> set (available_moves board). m < length board \<and> board ! m = EMPTY \<and>
     (\<forall>a b. \<exists>r. minimax n (board[m := player]) (if player = AI then HUMAN else AI) False a b =
                  Some (board[m := player], Inr r) \<and>
                fst r = fst (search_result n (board[m := player])
                               (if player = AI then HUMAN else AI) False a b))"
    by (rule children_return[OF assms(1) assms(2)]) (rule minimax_returns)
  from max_loop_scan[where rec = "minimax n" and f = "\<lambda>m a b. fst (search_result n (board[m := player]) (if player = AI then HUMAN else AI) False a b)", OF ch] assms(3)
  show ?thesis
    by (simp add: search_result_def)
qed

lemma search_result_min:
  assumes "length board = 9" and "depth board player < Suc n" and "winner board = Inr None"
  shows "search_result (Suc n) board player False alpha beta =
     min_scan (\<lambda>m a b. fst (search_result n (board[m := player])
                               (if player = AI then HUMAN else AI) True a b))
       (available_moves board) alpha beta 999 None"
proof -
  have ch: "\<forall>m \<in> set (available_moves board). m < length board \<and> board ! m = EMPTY \<and>
     (\<forall>a b. \<exists>r. minimax n (board[m := player]) (if player = AI then HUMAN else AI) True a b =
                  Some (board[m := player], Inr r) \<and>
                fst r = fst (search_result n (board[m := player])
                               (if player = AI then HUMAN else AI) True a b))"
    by (rule children_return[OF assms(1) assms(2)]) (rule minimax_returns)
  from min_loop_scan[where rec = "minimax n" and f = "\<lambda>m a b. fst (search_result n (board[m := player]) (if player = AI then HUMAN else AI) True a b)", OF ch] assms(3)
  show ?thesis
    by (simp add: search_result_def)
qed

subsection \<open>What the loops compute\<close>

lemma max_scan_range:
  assumes "\<forall>m \<in> set ms. \<forall>a b. f m a b \<in> {- 1, 0, 1}"
    and "set ms \<subseteq> M"
    and "(max_eval = - 999 \<and> ms \<noteq> []) \<or> (max_eval \<in> {- 1, 0, 1} \<and> best_move \<in> Some ` M)"
  shows "fst (max_scan f ms alpha beta max_eval best_move) \<in> {- 1, 0, 1} \<and>
         snd (max_scan f ms alpha beta max_eval best_move) \<in> Some ` M"
  using assms
proof (induction ms arbitrary: alpha max_eval best_move)
  case Nil
  then show ?case by simp
next
  case (Cons m ms)
  let ?e = "f m alpha beta"
  let ?me = "if ?e > max_eval then ?e else max_eval"
  let ?bm = "if ?e > max_eval then Some m else best_move"
  from Cons.prems have e: "?e \<in> {- 1, 0, 1}" by simp
  from Cons.prems have mM: "m \<in> M" by simp
  have st: "?me \<in> {- 1, 0, 1} \<and> ?bm \<in> Some ` M"
    using Cons.prems(3) e mM by auto
  have "fst (max_scan f ms (max alpha ?e) beta ?me ?bm) \<in> {- 1, 0, 1} \<and>
        snd (max_scan f ms (max alpha ?e) beta ?me ?bm) \<in> Some ` M"
    using Cons.prems st by (intro Cons.IH) auto
  with st show ?case by (simp add: Let_def)
qed

lemma min_scan_range:
  assumes "\<forall>m \<in> set ms. \<forall>a b. f m a b \<in> {- 1, 0, 1}"
    and "set ms \<subseteq> M"
    and "(min_eval = 999 \<and> ms \<noteq> []) \<or> (min_eval \<in> {- 1, 0, 1} \<and> best_move \<in> Some ` M)"
  shows "fst (min_scan f ms alpha beta min_eval best_move) \<in> {- 1, 0, 1} \<and>
         snd (min_scan f ms alpha beta min_eval best_move) \<in> Some ` M"
  using assms
proof (induction ms arbitrary: beta min_eval best_move)
  case Nil
  then show ?case by simp
next
  case (Cons m ms)
  let ?e = "f m alpha beta"
  let ?me = "if ?e < min_eval then ?e else min_eval"
  let ?bm = "if ?e < min_eval then Some m else best_move"
  from Cons.prems have e: "?e \<in> {- 1, 0, 1}" by simp
  from Cons.prems have mM: "m \<in> M" by simp
  have st: "?me \<in> {- 1, 0, 1} \<and> ?bm \<in> Some ` M"
    using Cons.prems(3) e mM by auto
  have "fst (min_scan f ms alpha (min beta ?e) ?me ?bm) \<in> {- 1, 0, 1} \<and>
        snd (min_scan f ms alpha (min beta ?e) ?me ?bm) \<in> Some ` M"
    using Cons.prems st by (intro Cons.IH) auto
  with st show ?case by (simp add: Let_def)
qed

lemma foldr_max_ge: "(a::int) \<le> foldr max xs a"
  by (induction xs) auto

lemma foldr_min_le: "foldr min xs a \<le> (a::int)"
  by (induction xs) auto

lemma foldr_max_max: "foldr max xs (max a e) = max e (foldr max xs (a::int))"
  by (induction xs) auto

lemma foldr_min_min: "foldr min xs (min a e) = min e (foldr min xs (a::int))"
  by (induction xs) auto

lemma window_step_max:
  fixes a b e gm B r me :: int
  assumes "r \<le> max a e \<longrightarrow> max e B \<le> r"
    and "max a e < r \<and> r < b \<longrightarrow> r = max e B"
    and "b \<le> r \<longrightarrow> r \<le> max e B"
    and "max me e \<le> r"
    and "e \<le> a \<longrightarrow> gm \<le> e"
    and "a < e \<and> e < b \<longrightarrow> e = gm"
    and "a < b" and "e < b" and "me \<le> B" and "me \<le> a"
  shows "(r \<le> a \<longrightarrow> max gm B \<le> r) \<and> (a < r \<and> r < b \<longrightarrow> r = max gm B) \<and>
         (b \<le> r \<longrightarrow> r \<le> max gm B) \<and> me \<le> r"
proof (intro conjI impI)
  show "me \<le> r" using assms(4) by linarith
  show "max gm B \<le> r" if "r \<le> a" using that assms by linarith
  show "r = max gm B" if "a < r \<and> r < b" using that assms by linarith
  show "r \<le> max gm B" if "b \<le> r" using that assms by linarith
qed

lemma max_scan_window:
  assumes "\<forall>m \<in> set ms. \<forall>a b. - 999 \<le> a \<and> a < b \<and> b \<le> 999 \<longrightarrow>
             within_window a b (g m) (f m a b)"
    and "alpha < beta" and "max_eval \<le> alpha" and "- 999 \<le> alpha" and "beta \<le> 999"
  shows "within_window alpha beta (foldr max (map g ms) max_eval)
           (fst (max_scan f ms alpha beta max_eval best_move)) \<and>
         max_eval \<le> fst (max_scan f ms alpha beta max_eval best_move)"
  using assms
proof (induction ms arbitrary: alpha max_eval best_move)
  case Nil
  then show ?case by (simp add: within_window_def)
next
  case (Cons m ms)
  define e where "e = f m alpha beta"
  define me where "me = (if e > max_eval then e else max_eval)"
  define bm where "bm = (if e > max_eval then Some m else best_move)"
  define B where "B = foldr max (map g ms) max_eval"
  from Cons.prems have we: "within_window alpha beta (g m) e" by (simp add: e_def)
  have B: "max_eval \<le> B" unfolding B_def by (rule foldr_max_ge)
  have W: "foldr max (map g (m # ms)) max_eval = max (g m) B" by (simp add: B_def)
  have me: "me = max max_eval e" by (simp add: me_def max_def)
  show ?case
  proof (cases "beta \<le> max alpha e")
    case True
    then have res: "fst (max_scan f (m # ms) alpha beta max_eval best_move) = me"
      by (simp add: Let_def e_def me_def)
    from True Cons.prems(2) have "beta \<le> e" by linarith
    with we have "e \<le> g m" by (simp add: within_window_def)
    with \<open>beta \<le> e\<close> Cons.prems(2,3) B
    have "within_window alpha beta (max (g m) B) me \<and> max_eval \<le> me"
      unfolding within_window_def me by (intro conjI impI; linarith)
    then show ?thesis unfolding res W .
  next
    case False
    define r where "r = fst (max_scan f ms (max alpha e) beta me bm)"
    have res: "fst (max_scan f (m # ms) alpha beta max_eval best_move) = r"
      using False by (simp add: Let_def e_def me_def bm_def r_def)
    have IH: "within_window (max alpha e) beta (foldr max (map g ms) me) r \<and> me \<le> r"
      unfolding r_def
    proof (rule Cons.IH)
      show "\<forall>m\<in>set ms. \<forall>a b. - 999 \<le> a \<and> a < b \<and> b \<le> 999 \<longrightarrow>
               within_window a b (g m) (f m a b)"
        using Cons.prems(1) by simp
      show "max alpha e < beta" using False by linarith
      show "me \<le> max alpha e" using Cons.prems(3) unfolding me by linarith
      show "- 999 \<le> max alpha e" using Cons.prems(4) by linarith
      show "beta \<le> 999" by (rule Cons.prems(5))
    qed
    have B': "foldr max (map g ms) me = max e B"
      unfolding me B_def by (rule foldr_max_max)
    from IH have "within_window (max alpha e) beta (max e B) r \<and> max max_eval e \<le> r"
      unfolding B' using me by simp
    then have 1: "r \<le> max alpha e \<longrightarrow> max e B \<le> r"
      and 2: "max alpha e < r \<and> r < beta \<longrightarrow> r = max e B"
      and 3: "beta \<le> r \<longrightarrow> r \<le> max e B"
      and 4: "max max_eval e \<le> r"
      unfolding within_window_def by blast+
    from we have 5: "e \<le> alpha \<longrightarrow> g m \<le> e"
      and 6: "alpha < e \<and> e < beta \<longrightarrow> e = g m"
      unfolding within_window_def by blast+
    from False have 8: "e < beta" by linarith
    have "within_window alpha beta (max (g m) B) r \<and> max_eval \<le> r"
      unfolding within_window_def
      using window_step_max[OF 1 2 3 4 5 6 Cons.prems(2) 8 B Cons.prems(3)] by blast
    then show ?thesis unfolding res W .
  qed
qed

lemma window_step_min:
  fixes a b e gm B r me :: int
  assumes "r \<le> a \<longrightarrow> min e B \<le> r"
    and "a < r \<and> r < min b e \<longrightarrow> r = min e B"
    and "min b e \<le> r \<longrightarrow> r \<le> min e B"
    and "r \<le> min me e"
    and "b \<le> e \<longrightarrow> e \<le> gm"
    and "a < e \<and> e < b \<longrightarrow> e = gm"
    and "a < b" and "a < e" and "B \<le> me" and "b \<le> me"
  shows "(r \<le> a \<longrightarrow> min gm B \<le> r) \<and> (a < r \<and> r < b \<longrightarrow> r = min gm B) \<and>
         (b \<le> r \<longrightarrow> r \<le> min gm B) \<and> r \<le> me"
proof (intro conjI impI)
  show "r \<le> me" using assms(4) by linarith
  show "min gm B \<le> r" if "r \<le> a" using that assms by linarith
  show "r = min gm B" if "a < r \<and> r < b" using that assms by linarith
  show "r \<le> min gm B" if "b \<le> r" using that assms by linarith
qed

lemma min_scan_window:
  assumes "\<forall>m \<in> set ms. \<forall>a b. - 999 \<le> a \<and> a < b \<and> b \<le> 999 \<longrightarrow>
             within_window a b (g m) (f m a b)"
    and "alpha < beta" and "beta \<le> min_eval" and "- 999 \<le> alpha" and "beta \<le> 999"
  shows "within_window alpha beta (foldr min (map g ms) min_eval)
           (fst (min_scan f ms alpha beta min_eval best_move)) \<and>
         fst (min_scan f ms alpha beta min_eval best_move) \<le> min_eval"
  using assms
proof (induction ms arbitrary: beta min_eval best_move)
  case Nil
  then show ?case by (simp add: within_window_def)
next
  case (Cons m ms)
  define e where "e = f m alpha beta"
  define me where "me = (if e < min_eval then e else min_eval)"
  define bm where "bm = (if e < min_eval then Some m else best_move)"
  define B where "B = foldr min (map g ms) min_eval"
  from Cons.prems have we: "within_window alpha beta (g m) e" by (simp add: e_def)
  have B: "B \<le> min_eval" unfolding B_def by (rule foldr_min_le)
  have W: "foldr min (map g (m # ms)) min_eval = min (g m) B" by (simp add: B_def)
  have me: "me = min min_eval e" by (simp add: me_def min_def)
  show ?case
  proof (cases "min beta e \<le> alpha")
    case True
    then have res: "fst (min_scan f (m # ms) alpha beta min_eval best_move) = me"
      by (simp add: Let_def e_def me_def)
    from True Cons.prems(2) have "e \<le> alpha" by linarith
    with we have "g m \<le> e" by (simp add: within_window_def)
    with \<open>e \<le> alpha\<close> Cons.prems(2,3) B
    have "within_window alpha beta (min (g m) B) me \<and> me \<le> min_eval"
      unfolding within_window_def me by (intro conjI impI; linarith)
    then show ?thesis unfolding res W .
  next
    case False
    define r where "r = fst (min_scan f ms alpha (min beta e) me bm)"
    have res: "fst (min_scan f (m # ms) alpha beta min_eval best_move) = r"
      using False by (simp add: Let_def e_def me_def bm_def r_def)
    have IH: "within_window alpha (min beta e) (foldr min (map g ms) me) r \<and> r \<le> me"
      unfolding r_def
    proof (rule Cons.IH)
      show "\<forall>m\<in>set ms. \<forall>a b. - 999 \<le> a \<and> a < b \<and> b \<le> 999 \<longrightarrow>
               within_window a b (g m) (f m a b)"
        using Cons.prems(1) by simp
      show "alpha < min beta e" using False by linarith
      show "min beta e \<le> me" using Cons.prems(3) unfolding me by linarith
      show "- 999 \<le> alpha" by (rule Cons.prems(4))
      show "min beta e \<le> 999" using Cons.prems(5) by linarith
    qed
    have B': "foldr min (map g ms) me = min e B"
      unfolding me B_def by (rule foldr_min_min)
    from IH have "within_window alpha (min beta e) (min e B) r \<and> r \<le> min min_eval e"
      unfolding B' using me by simp
    then have 1: "r \<le> alpha \<longrightarrow> min e B \<le> r"
      and 2: "alpha < r \<and> r < min beta e \<longrightarrow> r = min e B"
      and 3: "min beta e \<le> r \<longrightarrow> r \<le> min e B"
      and 4: "r \<le> min min_eval e"
      unfolding within_window_def by blast+
    from we have 5: "beta \<le> e \<longrightarrow> e \<le> g m"
      and 6: "alpha < e \<and> e < beta \<longrightarrow> e = g m"
      unfolding within_window_def by blast+
    from False have 8: "alpha < e" by linarith
    have "within_window alpha beta (min (g m) B) r \<and> r \<le> min_eval"
      unfolding within_window_def
      using window_step_min[OF 1 2 3 4 5 6 Cons.prems(2) 8 B Cons.prems(3)] by blast
    then show ?thesis unfolding res W .
  qed
qed

text \<open>With the window fully open the loops are scans for the first best value.\<close>

lemma max_scan_open:
  assumes "\<forall>m \<in> set ms. \<forall>a. - 999 \<le> a \<and> a < 999 \<longrightarrow> within_window a 999 (g m) (f m a 999)"
    and "\<forall>m \<in> set ms. \<forall>a. f m a 999 < 999"
    and "- 999 \<le> cur" and "cur < 999"
  shows "max_scan f ms cur 999 cur best_move = best_scan (\<lambda>x y. x > y) g ms cur best_move"
  using assms
proof (induction ms arbitrary: cur best_move)
  case Nil
  show ?case by simp
next
  case (Cons m ms)
  define e where "e = f m cur 999"
  from Cons.prems have we: "within_window cur 999 (g m) e" and e: "e < 999"
    by (simp_all add: e_def)
  have rest: "max_scan f ms c 999 c bm = best_scan (\<lambda>x y. x > y) g ms c bm"
    if "- 999 \<le> c" "c < 999" for c bm
    using Cons.prems(1,2) that by (intro Cons.IH) simp_all
  show ?case
  proof (cases "e > cur")
    case True
    with we e have g: "g m = e" by (simp add: within_window_def)
    have "max cur e = e" using True by simp
    with True e g rest[of e "Some m"] Cons.prems(3) show ?thesis
      by (simp add: Let_def e_def[symmetric])
  next
    case False
    with we have g: "g m \<le> cur" by (simp add: within_window_def)
    have "max cur e = cur" using False by simp
    with False g rest[of cur best_move] Cons.prems(3,4) show ?thesis
      by (simp add: Let_def e_def[symmetric])
  qed
qed

lemma min_scan_open:
  assumes "\<forall>m \<in> set ms. \<forall>b. - 999 < b \<and> b \<le> 999 \<longrightarrow>
             within_window (- 999) b (g m) (f m (- 999) b)"
    and "\<forall>m \<in> set ms. \<forall>b. - 999 < f m (- 999) b"
    and "- 999 < cur" and "cur \<le> 999"
  shows "min_scan f ms (- 999) cur cur best_move = best_scan (\<lambda>x y. x < y) g ms cur best_move"
  using assms
proof (induction ms arbitrary: cur best_move)
  case Nil
  show ?case by simp
next
  case (Cons m ms)
  define e where "e = f m (- 999) cur"
  from Cons.prems have we: "within_window (- 999) cur (g m) e" and e: "- 999 < e"
    by (simp_all add: e_def)
  have rest: "min_scan f ms (- 999) c c bm = best_scan (\<lambda>x y. x < y) g ms c bm"
    if "- 999 < c" "c \<le> 999" for c bm
    using Cons.prems(1,2) that by (intro Cons.IH) simp_all
  show ?case
  proof (cases "e < cur")
    case True
    with we e have g: "g m = e" by (simp add: within_window_def)
    have "min cur e = e" using True by simp
    with True e g rest[of e "Some m"] Cons.prems(4) show ?thesis
      by (simp add: Let_def e_def[symmetric])
  next
    case False
    with we have g: "cur \<le> g m" by (simp add: within_window_def)
    have "min cur e = cur" using False by simp
    with False g rest[of cur best_move] Cons.prems(3,4) show ?thesis
      by (simp add: Let_def e_def[symmetric])
  qed
qed

lemma best_scan_Max:
  "best_scan (\<lambda>x y. x > y) g ms cur best_move =
     (if \<exists>m \<in> set ms. g m > cur
      then (Max (g ` set ms), find (\<lambda>m. g m = Max (g ` set ms)) ms)
      else (cur, best_move))"
proof (induction ms arbitrary: cur best_move)
  case Nil
  show ?case by simp
next
  case (Cons m ms)
  let ?S = "g ` set ms"
  have fin: "finite ?S" by simp
  have bigger: "Max (insert (g m) ?S) = Max ?S \<and> g m \<noteq> Max ?S"
    if "m' \<in> set ms" "g m < g m'" for m'
  proof -
    from that(1) have "g m' \<le> Max ?S" by simp
    with that(2) have lt: "g m < Max ?S" by linarith
    from that(1) have "?S \<noteq> {}" by auto
    with fin have "Max (insert (g m) ?S) = max (g m) (Max ?S)" by (rule Max_insert)
    with lt show ?thesis by linarith
  qed
  show ?case
  proof (cases "g m > cur")
    case True
    show ?thesis
    proof (cases "\<exists>m' \<in> set ms. g m' > g m")
      case True
      then obtain m' where "m' \<in> set ms" "g m < g m'" by auto
      from bigger[OF this] True \<open>g m > cur\<close> show ?thesis
        by (simp add: Cons.IH)
    next
      case False
      then have "Max (insert (g m) ?S) = g m"
        by (intro Max_insert2) (auto simp: not_less)
      with False \<open>g m > cur\<close> show ?thesis by (simp add: Cons.IH)
    qed
  next
    case False
    show ?thesis
    proof (cases "\<exists>m' \<in> set ms. g m' > cur")
      case True
      then obtain m' where m': "m' \<in> set ms" "cur < g m'" by auto
      with False have "g m < g m'" by linarith
      from bigger[OF m'(1) this] True False show ?thesis
        by (simp add: Cons.IH)
    next
      case no: False
      with False show ?thesis by (simp add: Cons.IH)
    qed
  qed
qed

lemma best_scan_Min:
  "best_scan (\<lambda>x y. x < y) g ms cur best_move =
     (if \<exists>m \<in> set ms. g m < cur
      then (Min (g ` set ms), find (\<lambda>m. g m = Min (g ` set ms)) ms)
      else (cur, best_move))"
proof (induction ms arbitrary: cur best_move)
  case Nil
  show ?case by simp
next
  case (Cons m ms)
  let ?S = "g ` set ms"
  have fin: "finite ?S" by simp
  have smaller: "Min (insert (g m) ?S) = Min ?S \<and> g m \<noteq> Min ?S"
    if "m' \<in> set ms" "g m' < g m" for m'
  proof -
    from that(1) have "Min ?S \<le> g m'" by simp
    with that(2) have lt: "Min ?S < g m" by linarith
    from that(1) have "?S \<noteq> {}" by auto
    with fin have "Min (insert (g m) ?S) = min (g m) (Min ?S)" by (rule Min_insert)
    with lt show ?thesis by linarith
  qed
  show ?case
  proof (cases "g m < cur")
    case True
    show ?thesis
    proof (cases "\<exists>m' \<in> set ms. g m' < g m")
      case True
      then obtain m' where "m' \<in> set ms" "g m' < g m" by auto
      from smaller[OF this] True \<open>g m < cur\<close> show ?thesis
        by (simp add: Cons.IH)
    next
      case False
      then have "Min (insert (g m) ?S) = g m"
        by (intro Min_insert2) (auto simp: not_less)
      with False \<open>g m < cur\<close> show ?thesis by (simp add: Cons.IH)
    qed
  next
    case False
    show ?thesis
    proof (cases "\<exists>m' \<in> set ms. g m' < cur")
      case True
      then obtain m' where m': "m' \<in> set ms" "g m' < cur" by auto
      with False have "g m' < g m" by linarith
      from smaller[OF m'(1) this] True False show ?thesis
        by (simp add: Cons.IH)
    next
      case no: False
      with False show ?thesis by (simp add: Cons.IH)
    qed
  qed
qed

lemma foldr_max_Max:
  "xs \<noteq> [] \<Longrightarrow> \<forall>x \<in> set xs. a \<le> x \<Longrightarrow> foldr max xs a = Max (set xs)" for a :: int
proof (induction xs)
  case Nil
  then show ?case by simp
next
  case (Cons x xs)
  show ?case
  proof (cases "xs = []")
    case True
    with Cons.prems show ?thesis by simp
  next
    case False
    with Cons show ?thesis by simp
  qed
qed

lemma foldr_min_Min:
  "xs \<noteq> [] \<Longrightarrow> \<forall>x \<in> set xs. x \<le> a \<Longrightarrow> foldr min xs a = Min (set xs)" for a :: int
proof (induction xs)
  case Nil
  then show ?case by simp
next
  case (Cons x xs)
  show ?case
  proof (cases "xs = []")
    case True
    with Cons.prems show ?thesis by simp
  next
    case False
    with Cons show ?thesis by simp
  qed
qed

subsection \<open>Unpruned minimax\<close>

lemma plain_value_terminal:
  "winner board = Inr (Some w) \<Longrightarrow> plain_value board player maximizing = score_for AI (Some w)"
  by (simp add: plain_value.simps)

lemma plain_value_max:
  "winner board = Inr None \<Longrightarrow>
   plain_value board player True =
     Max ((\<lambda>m. plain_value (board[m := player]) (if player = AI then HUMAN else AI) False)
            ` set (available_moves board))"
  by (subst plain_value.simps) simp

lemma plain_value_min:
  "winner board = Inr None \<Longrightarrow>
   plain_value board player False =
     Min ((\<lambda>m. plain_value (board[m := player]) (if player = AI then HUMAN else AI) True)
            ` set (available_moves board))"
  by (subst plain_value.simps) simp

lemma plain_value_range: "plain_value board player maximizing \<in> {- 1, 0, 1}"
proof (induction board player maximizing rule: plain_value.induct)
  case (1 board player maximizing)
  show ?case
  proof (cases "winner board")
    case (Inl e)
    then show ?thesis by (simp add: plain_value.simps)
  next
    case (Inr w)
    show ?thesis
    proof (cases w)
      case (Some s)
      with Inr score_for_range[of AI "Some s"] show ?thesis
        by (simp add: plain_value_terminal)
    next
      case None
      let ?g = "\<lambda>m. plain_value (board[m := player]) (if player = AI then HUMAN else AI)
                      (\<not> maximizing)"
      let ?S = "?g ` set (available_moves board)"
      from Inr None have ne: "?S \<noteq> {}" by (simp add: winner_None_moves)
      have "?g m \<in> {- 1, 0, 1}" if "m \<in> set (available_moves board)" for m
        using 1[OF Inr None that] .
      then have sub: "?S \<subseteq> {- 1, 0, 1}" by blast
      have fin: "finite ?S" by simp
      have "Max ?S \<in> ?S" "Min ?S \<in> ?S"
        by (rule Max_in[OF fin ne], rule Min_in[OF fin ne])
      with sub have "Max ?S \<in> {- 1, 0, 1}" "Min ?S \<in> {- 1, 0, 1}" by blast+
      with Inr None show ?thesis
        by (cases maximizing) (simp_all add: plain_value_max plain_value_min)
    qed
  qed
qed

subsection \<open>Scores and moves of the search\<close>

lemma length_child: "length board = 9 \<Longrightarrow> length (board[m := player]) = 9"
  by simp

lemma search_range:
  "length board = 9 \<Longrightarrow> depth board player < n \<Longrightarrow>
   fst (search_result n board player maximizing alpha beta) \<in> {- 1, 0, 1} \<and>
   (winner board = Inr None \<longrightarrow>
      snd (search_result n board player maximizing alpha beta) \<in> Some ` set (available_moves board)) \<and>
   (winner board \<noteq> Inr None \<longrightarrow>
      snd (search_result n board player maximizing alpha beta) = None)"
proof (induction n arbitrary: board player maximizing alpha beta)
  case 0
  then show ?case by simp
next
  case (Suc n)
  from winner_total[OF Suc.prems(1)] obtain w where w: "winner board = Inr w" ..
  show ?case
  proof (cases w)
    case (Some s)
    with w score_for_range[of AI "Some s"] show ?thesis
      by (simp add: search_result_terminal)
  next
    case None
    with w have wn: "winner board = Inr None" by simp
    let ?ms = "available_moves board"
    have ne: "?ms \<noteq> []" using wn by (rule winner_None_moves)
    have ch: "\<forall>m \<in> set ?ms. \<forall>a b.
        fst (search_result n (board[m := player]) (if player = AI then HUMAN else AI) mx a b)
          \<in> {- 1, 0, 1}" for mx
      using Suc.IH[OF length_child[OF Suc.prems(1)] depth_step[OF _ Suc.prems(2)]] by blast
    show ?thesis
    proof (cases maximizing)
      case True
      from max_scan_range[OF ch[of False] subset_refl, where max_eval = "- 999" and alpha = alpha
          and beta = beta and best_move = None] ne wn True
      show ?thesis
        by (simp add: search_result_max[OF Suc.prems wn])
    next
      case False
      from min_scan_range[OF ch[of True] subset_refl, where min_eval = 999 and alpha = alpha
          and beta = beta and best_move = None] ne wn False
      show ?thesis
        by (simp add: search_result_min[OF Suc.prems wn])
    qed
  qed
qed

subsection \<open>The window and the value\<close>

lemma within_window_refl: "within_window a b v v"
  by (simp add: within_window_def)

lemma within_window_exact: "within_window a b v r \<Longrightarrow> a < r \<Longrightarrow> r < b \<Longrightarrow> r = v"
  by (simp add: within_window_def)

lemma plain_value_bounds:
  "- 999 \<le> plain_value board player maximizing" "plain_value board player maximizing \<le> 999"
  using plain_value_range[of board player maximizing] by auto

lemma search_window:
  "length board = 9 \<Longrightarrow> depth board player < n \<Longrightarrow> - 999 \<le> alpha \<Longrightarrow> alpha < beta \<Longrightarrow>
   beta \<le> 999 \<Longrightarrow>
   within_window alpha beta (plain_value board player maximizing)
     (fst (search_result n board player maximizing alpha beta))"
proof (induction n arbitrary: board player maximizing alpha beta)
  case 0
  then show ?case by simp
next
  case (Suc n)
  from winner_total[OF Suc.prems(1)] obtain w where w: "winner board = Inr w" ..
  show ?case
  proof (cases w)
    case (Some s)
    with w show ?thesis
      by (simp add: search_result_terminal plain_value_terminal within_window_refl)
  next
    case None
    with w have wn: "winner board = Inr None" by simp
    let ?ms = "available_moves board"
    let ?p = "if player = AI then HUMAN else AI"
    have ne: "?ms \<noteq> []" using wn by (rule winner_None_moves)
    have ch: "\<forall>m \<in> set ?ms. \<forall>a b. - 999 \<le> a \<and> a < b \<and> b \<le> 999 \<longrightarrow>
        within_window a b (plain_value (board[m := player]) ?p mx)
          (fst (search_result n (board[m := player]) ?p mx a b))" for mx
      using Suc.IH[OF length_child[OF Suc.prems(1)] depth_step[OF _ Suc.prems(2)]] by blast
    show ?thesis
    proof (cases maximizing)
      case True
      let ?g = "\<lambda>m. plain_value (board[m := player]) ?p False"
      have "foldr max (map ?g ?ms) (- 999) = Max (set (map ?g ?ms))"
      proof (rule foldr_max_Max)
        show "map ?g ?ms \<noteq> []" using ne by simp
        show "\<forall>x \<in> set (map ?g ?ms). - 999 \<le> x"
          using plain_value_bounds by simp
      qed
      then have pv: "plain_value board player True = foldr max (map ?g ?ms) (- 999)"
        by (simp add: plain_value_max[OF wn])
      from max_scan_window[OF ch[of False] Suc.prems(4) Suc.prems(3) Suc.prems(3) Suc.prems(5),
          where best_move = None] True
      show ?thesis
        by (simp add: search_result_max[OF Suc.prems(1,2) wn] pv)
    next
      case False
      let ?g = "\<lambda>m. plain_value (board[m := player]) ?p True"
      have "foldr min (map ?g ?ms) 999 = Min (set (map ?g ?ms))"
      proof (rule foldr_min_Min)
        show "map ?g ?ms \<noteq> []" using ne by simp
        show "\<forall>x \<in> set (map ?g ?ms). x \<le> 999"
          using plain_value_bounds by simp
      qed
      then have pv: "plain_value board player False = foldr min (map ?g ?ms) 999"
        by (simp add: plain_value_min[OF wn])
      from min_scan_window[OF ch[of True] Suc.prems(4) Suc.prems(5) Suc.prems(3) Suc.prems(5),
          where best_move = None] False
      show ?thesis
        by (simp add: search_result_min[OF Suc.prems(1,2) wn] pv)
    qed
  qed
qed

subsection \<open>The full window gives the unpruned result\<close>

lemma plain_move_terminal:
  "winner board = Inr (Some w) \<Longrightarrow> plain_move board player maximizing = None"
  by (simp add: plain_move_def)

lemma search_full:
  assumes len: "length board = 9" and dep: "depth board player < n"
  shows "search_result n board player maximizing (- 999) 999 =
         plain_minimax board player maximizing"
proof -
  from dep obtain k where n: "n = Suc k" by (cases n) auto
  note dep' = dep[unfolded n]
  from winner_total[OF len] obtain w where w: "winner board = Inr w" ..
  show ?thesis
  proof (cases w)
    case (Some s)
    with w show ?thesis
      by (simp add: n search_result_terminal plain_minimax_def plain_value_terminal
          plain_move_terminal)
  next
    case None
    with w have wn: "winner board = Inr None" by simp
    let ?ms = "available_moves board"
    let ?p = "if player = AI then HUMAN else AI"
    let ?f = "\<lambda>mx m a b. fst (search_result k (board[m := player]) ?p mx a b)"
    let ?g = "\<lambda>mx m. plain_value (board[m := player]) ?p mx"
    have ne: "?ms \<noteq> []" using wn by (rule winner_None_moves)
    then obtain m0 where m0: "m0 \<in> set ?ms" by (cases ?ms) auto
    have win: "within_window a b (?g mx m) (?f mx m a b)"
      if "m \<in> set ?ms" "- 999 \<le> a" "a < b" "b \<le> 999" for mx m a b
      using search_window[OF length_child[OF len] depth_step[OF that(1) dep'] that(2,3,4)] .
    have rng: "?f mx m a b \<in> {- 1, 0, 1}" if "m \<in> set ?ms" for mx m a b
      using search_range[OF length_child[OF len] depth_step[OF that dep']] by blast
    show ?thesis
    proof (cases maximizing)
      case True
      have "max_scan (?f False) ?ms (- 999) 999 (- 999) None =
            best_scan (\<lambda>x y. x > y) (?g False) ?ms (- 999) None"
      proof (rule max_scan_open)
        show "\<forall>m\<in>set ?ms. \<forall>a. - 999 \<le> a \<and> a < 999 \<longrightarrow>
                within_window a 999 (?g False m) (?f False m a 999)"
          using win by simp
        show "\<forall>m\<in>set ?ms. \<forall>a. ?f False m a 999 < 999"
        proof (intro ballI allI)
          fix m a assume "m \<in> set ?ms"
          from rng[OF this, of False a 999] show "?f False m a 999 < 999" by auto
        qed
      qed simp_all
      also have "\<dots> = (Max (?g False ` set ?ms),
                       find (\<lambda>m. ?g False m = Max (?g False ` set ?ms)) ?ms)"
      proof -
        from plain_value_bounds(1)[of "board[m0 := player]" ?p False]
        have "- 999 < ?g False m0" using plain_value_range[of "board[m0 := player]" ?p False]
          by auto
        with m0 have "\<exists>m \<in> set ?ms. ?g False m > - 999" by blast
        then show ?thesis by (simp add: best_scan_Max)
      qed
      finally show ?thesis
        using True
        by (simp add: n search_result_max[OF len dep' wn] plain_minimax_def
            plain_value_max[OF wn] plain_move_def wn)
    next
      case False
      have "min_scan (?f True) ?ms (- 999) 999 999 None =
            best_scan (\<lambda>x y. x < y) (?g True) ?ms 999 None"
      proof (rule min_scan_open)
        show "\<forall>m\<in>set ?ms. \<forall>b. - 999 < b \<and> b \<le> 999 \<longrightarrow>
                within_window (- 999) b (?g True m) (?f True m (- 999) b)"
          using win by simp
        show "\<forall>m\<in>set ?ms. \<forall>b. - 999 < ?f True m (- 999) b"
        proof (intro ballI allI)
          fix m b assume "m \<in> set ?ms"
          from rng[OF this, of True "- 999" b] show "- 999 < ?f True m (- 999) b" by auto
        qed
      qed simp_all
      also have "\<dots> = (Min (?g True ` set ?ms),
                       find (\<lambda>m. ?g True m = Min (?g True ` set ?ms)) ?ms)"
      proof -
        have "?g True m0 < 999" using plain_value_range[of "board[m0 := player]" ?p True]
          by auto
        with m0 have "\<exists>m \<in> set ?ms. ?g True m < 999" by blast
        then show ?thesis by (simp add: best_scan_Min)
      qed
      finally show ?thesis
        using False
        by (simp add: n search_result_min[OF len dep' wn] plain_minimax_def
            plain_value_min[OF wn] plain_move_def wn)
    qed
  qed
qed

lemma minimax_full:
  assumes "length board = 9" and "depth board player < n"
  shows "minimax n board player maximizing (- 999) 999 =
         Some (board, Inr (plain_minimax board player maximizing))"
  using minimax_result[OF assms, of maximizing "- 999" 999] search_full[OF assms, of maximizing]
  by simp

lemma depth_11: "length board = 9 \<Longrightarrow> 11 \<le> n \<Longrightarrow> depth board player < n"
  using depth_le[of board player] by simp

lemma search_score_plain:
  "length board = 9 \<Longrightarrow> depth board player < n \<Longrightarrow>
   search_score n board player maximizing = plain_value board player maximizing"
  by (simp add: search_score_def search_full plain_minimax_def)

subsection \<open>Move choice\<close>

lemma py_max_Max: "xs \<noteq> [] \<Longrightarrow> py_max xs = Inr (Max (set xs))"
proof (cases xs)
  case Nil
  then show "xs \<noteq> [] \<Longrightarrow> ?thesis" by simp
next
  case (Cons x ys)
  have "Max (set (x # ys)) = fold max ys x" by (rule Max.set_eq_fold)
  with Cons show ?thesis by simp
qed

lemma py_index_first:
  "v \<in> set xs \<Longrightarrow>
   \<exists>i. py_index xs v = Inr i \<and> i < length xs \<and> xs ! i = v \<and> (\<forall>j < i. xs ! j \<noteq> v)"
proof (induction xs)
  case Nil
  then show ?case by simp
next
  case (Cons x xs)
  show ?case
  proof (cases "x = v")
    case True
    then show ?thesis by simp
  next
    case False
    with Cons.prems have "v \<in> set xs" by simp
    from Cons.IH[OF this] obtain i where i: "py_index xs v = Inr i" "i < length xs"
      "xs ! i = v" "\<forall>j < i. xs ! j \<noteq> v" by blast
    have "\<forall>j < Suc i. (x # xs) ! j \<noteq> v"
    proof (intro allI impI)
      fix j assume "j < Suc i"
      with i(4) False show "(x # xs) ! j \<noteq> v" by (cases j) auto
    qed
    with i False show ?thesis by simp
  qed
qed

lemma ai_loop_scores:
  assumes "length board = 9" and "11 \<le> n"
    and "\<forall>m \<in> set ms. m < length board \<and> board ! m = EMPTY"
  shows "ai_loop n ms board outcomes =
     Some (board, Inr (outcomes @ map (\<lambda>m. plain_value (board[m := AI]) HUMAN False) ms))"
  using assms(3)
proof (induction ms arbitrary: outcomes)
  case Nil
  show ?case by simp
next
  case (Cons m ms)
  from Cons.prems have m: "m < length board" "board ! m = EMPTY" by simp_all
  have undo: "board[m := EMPTY] = board"
    using m by (simp add: list_update_same_conv)
  have "length (board[m := AI]) = 9" using assms(1) by simp
  from minimax_full[OF this depth_11[OF this assms(2)], of HUMAN False]
  have run: "minimax n (board[m := AI]) HUMAN False (- 999) 999 =
     Some (board[m := AI], Inr (plain_minimax (board[m := AI]) HUMAN False))" .
  have rest: "ai_loop n ms board os =
     Some (board, Inr (os @ map (\<lambda>m. plain_value (board[m := AI]) HUMAN False) ms))" for os
    using Cons by simp
  show ?case
    using m by (simp add: setitem_def run plain_minimax_def undo rest)
qed

lemma ai_move_choice:
  assumes len: "length board = 9" and n: "11 \<le> n" and ne: "EMPTY \<in> set board"
  defines "moves \<equiv> available_moves board"
  defines "outcomes \<equiv> map (\<lambda>m. plain_value (board[m := AI]) HUMAN False) (available_moves board)"
  shows "\<exists>i. i < length moves \<and>
     ai_move n board = Some (board, Inr (moves ! i, win_probability outcomes)) \<and>
     outcomes ! i = Max (set outcomes) \<and> (\<forall>j < i. outcomes ! j \<noteq> Max (set outcomes))"
proof -
  have mem: "\<forall>m \<in> set moves. m < length board \<and> board ! m = EMPTY"
    by (simp add: moves_def set_available_moves)
  have loop: "ai_loop n moves board [] = Some (board, Inr outcomes)"
    using ai_loop_scores[OF len n mem, of "[]"] by (simp add: outcomes_def moves_def)
  from ne have "moves \<noteq> []" by (simp add: moves_def available_moves_empty_iff)
  then have one: "outcomes \<noteq> []" by (simp add: outcomes_def moves_def)
  then have "Max (set outcomes) \<in> set outcomes" by simp
  from py_index_first[OF this] obtain i where i: "py_index outcomes (Max (set outcomes)) = Inr i"
    "i < length outcomes" "outcomes ! i = Max (set outcomes)"
    "\<forall>j < i. outcomes ! j \<noteq> Max (set outcomes)" by blast
  have li: "i < length moves" using i(2) by (simp add: outcomes_def moves_def)
  have "ai_move n board = Some (board, Inr (moves ! i, win_probability outcomes))"
    unfolding ai_move_def moves_def[symmetric]
    by (simp add: loop py_max_Max[OF one] i(1) getitem_def li)
  with li i show ?thesis by blast
qed

lemma ai_move_full:
  "EMPTY \<notin> set board \<Longrightarrow> ai_move n board = Some (board, Inl ValueError)"
  by (simp add: ai_move_def available_moves_empty_iff[THEN iffD2])

lemma count_two: "count_list xs (1::int) + count_list xs 0 \<le> length xs"
  by (induction xs) auto

lemma win_probability_bounds: "0 \<le> win_probability outcomes \<and> win_probability outcomes \<le> 1"
proof (cases "outcomes = []")
  case True
  then show ?thesis by (simp add: win_probability_def)
next
  case False
  then have pos: "0 < real (length outcomes)" by simp
  have "real (count_list outcomes 1) + 0.5 * real (count_list outcomes 0) \<le>
        real (count_list outcomes 1 + count_list outcomes 0)" by simp
  also have "\<dots> \<le> real (length outcomes)" using count_two[of outcomes] by linarith
  finally have "(real (count_list outcomes 1) + 0.5 * real (count_list outcomes 0)) /
      real (length outcomes) \<le> 1" using pos by simp
  with False show ?thesis by (simp add: win_probability_def Let_def)
qed

subsection \<open>Evaluation on boards written out cell by cell\<close>

lemma cell_eq:
  "(EMPTY = HUMAN) = False" "(EMPTY = AI) = False" "(HUMAN = EMPTY) = False"
  "(HUMAN = AI) = False" "(AI = EMPTY) = False" "(AI = HUMAN) = False"
  by (simp_all add: EMPTY_def HUMAN_def AI_def)

lemma cons_if_simps: "cons_if True x xs = x # xs" "cons_if False x xs = xs"
  by (simp_all add: cons_if_def)

lemma available_moves9:
  "available_moves [a, b, c, d, e, f, g, h, i] =
    cons_if (a = EMPTY) 0 (cons_if (b = EMPTY) 1 (cons_if (c = EMPTY) 2 (cons_if (d = EMPTY) 3
    (cons_if (e = EMPTY) 4 (cons_if (f = EMPTY) 5 (cons_if (g = EMPTY) 6 (cons_if (h = EMPTY) 7
    (cons_if (i = EMPTY) 8 []))))))))"
  by (simp add: available_moves_def cons_if_def)

lemma nth9:
  "[a, b, c, d, e, f, g, h, i] ! 0 = a" "[a, b, c, d, e, f, g, h, i] ! 1 = b"
  "[a, b, c, d, e, f, g, h, i] ! 2 = c" "[a, b, c, d, e, f, g, h, i] ! 3 = d"
  "[a, b, c, d, e, f, g, h, i] ! 4 = e" "[a, b, c, d, e, f, g, h, i] ! 5 = f"
  "[a, b, c, d, e, f, g, h, i] ! 6 = g" "[a, b, c, d, e, f, g, h, i] ! 7 = h"
  "[a, b, c, d, e, f, g, h, i] ! 8 = i"
  by simp_all

lemma winner9:
  "winner [a, b, c, d, e, f, g, h, i] =
    (if same3 a b c then Inr (Some a) else if same3 d e f then Inr (Some d)
     else if same3 g h i then Inr (Some g) else if same3 a d g then Inr (Some a)
     else if same3 b e h then Inr (Some b) else if same3 c f i then Inr (Some c)
     else if same3 a e i then Inr (Some a) else if same3 c e g then Inr (Some c)
     else if a \<noteq> EMPTY \<and> b \<noteq> EMPTY \<and> c \<noteq> EMPTY \<and> d \<noteq> EMPTY \<and> e \<noteq> EMPTY \<and>
             f \<noteq> EMPTY \<and> g \<noteq> EMPTY \<and> h \<noteq> EMPTY \<and> i \<noteq> EMPTY
     then Inr (Some ''Draw'') else Inr None)"
proof -
  have len: "length [a, b, c, d, e, f, g, h, i] = 9" by simp
  have lt: "(0::nat) < 9" "(1::nat) < 9" "(2::nat) < 9" "(3::nat) < 9" "(4::nat) < 9"
    "(5::nat) < 9" "(6::nat) < 9" "(7::nat) < 9" "(8::nat) < 9"
    by simp_all
  have e: "(EMPTY \<notin> set [a, b, c, d, e, f, g, h, i]) =
     (a \<noteq> EMPTY \<and> b \<noteq> EMPTY \<and> c \<noteq> EMPTY \<and> d \<noteq> EMPTY \<and> e \<noteq> EMPTY \<and>
      f \<noteq> EMPTY \<and> g \<noteq> EMPTY \<and> h \<noteq> EMPTY \<and> i \<noteq> EMPTY)"
    by auto
  show ?thesis
    unfolding winner_def WIN_LINES_def same3_def
    by (simp only: winner_loop_step len lt nth9 winner_loop.simps(1) e if_distrib[of Inr])
qed

lemma setitem9:
  "setitem [a, b, c, d, e, f, g, h, i] 0 v = Inr [v, b, c, d, e, f, g, h, i]"
  "setitem [a, b, c, d, e, f, g, h, i] 1 v = Inr [a, v, c, d, e, f, g, h, i]"
  "setitem [a, b, c, d, e, f, g, h, i] 2 v = Inr [a, b, v, d, e, f, g, h, i]"
  "setitem [a, b, c, d, e, f, g, h, i] 3 v = Inr [a, b, c, v, e, f, g, h, i]"
  "setitem [a, b, c, d, e, f, g, h, i] 4 v = Inr [a, b, c, d, v, f, g, h, i]"
  "setitem [a, b, c, d, e, f, g, h, i] 5 v = Inr [a, b, c, d, e, v, g, h, i]"
  "setitem [a, b, c, d, e, f, g, h, i] 6 v = Inr [a, b, c, d, e, f, v, h, i]"
  "setitem [a, b, c, d, e, f, g, h, i] 7 v = Inr [a, b, c, d, e, f, g, v, i]"
  "setitem [a, b, c, d, e, f, g, h, i] 8 v = Inr [a, b, c, d, e, f, g, h, v]"
  by (simp_all add: setitem_def numeral_eq_Suc)

lemma same3_simps:
  "same3 HUMAN HUMAN HUMAN = True" "same3 AI AI AI = True"
  "same3 HUMAN AI c = False" "same3 AI HUMAN c = False"
  "same3 a HUMAN AI = False" "same3 a AI HUMAN = False"
  "same3 a b EMPTY = False" "same3 a EMPTY c = False" "same3 EMPTY b c = False"
  by (auto simp add: same3_def cell_eq)

lemma score_simps:
  "score_for AI (Some HUMAN) = - 1" "score_for AI (Some AI) = 1"
  "score_for AI (Some ''Draw'') = 0"
  by (simp_all add: score_for_def AI_def HUMAN_def)

lemma int_table:
  "((- 999::int) < - 999) = False"
  "((- 999::int) < - 1) = True"
  "((- 999::int) < 0) = True"
  "((- 999::int) < 1) = True"
  "((- 999::int) < 999) = True"
  "((- 1::int) < - 999) = False"
  "((- 1::int) < - 1) = False"
  "((- 1::int) < 0) = True"
  "((- 1::int) < 1) = True"
  "((- 1::int) < 999) = True"
  "((0::int) < - 999) = False"
  "((0::int) < - 1) = False"
  "((0::int) < 0) = False"
  "((0::int) < 1) = True"
  "((0::int) < 999) = True"
  "((1::int) < - 999) = False"
  "((1::int) < - 1) = False"
  "((1::int) < 0) = False"
  "((1::int) < 1) = False"
  "((1::int) < 999) = True"
  "((999::int) < - 999) = False"
  "((999::int) < - 1) = False"
  "((999::int) < 0) = False"
  "((999::int) < 1) = False"
  "((999::int) < 999) = False"
  "((- 999::int) \<le> - 999) = True"
  "((- 999::int) \<le> - 1) = True"
  "((- 999::int) \<le> 0) = True"
  "((- 999::int) \<le> 1) = True"
  "((- 999::int) \<le> 999) = True"
  "((- 1::int) \<le> - 999) = False"
  "((- 1::int) \<le> - 1) = True"
  "((- 1::int) \<le> 0) = True"
  "((- 1::int) \<le> 1) = True"
  "((- 1::int) \<le> 999) = True"
  "((0::int) \<le> - 999) = False"
  "((0::int) \<le> - 1) = False"
  "((0::int) \<le> 0) = True"
  "((0::int) \<le> 1) = True"
  "((0::int) \<le> 999) = True"
  "((1::int) \<le> - 999) = False"
  "((1::int) \<le> - 1) = False"
  "((1::int) \<le> 0) = False"
  "((1::int) \<le> 1) = True"
  "((1::int) \<le> 999) = True"
  "((999::int) \<le> - 999) = False"
  "((999::int) \<le> - 1) = False"
  "((999::int) \<le> 0) = False"
  "((999::int) \<le> 1) = False"
  "((999::int) \<le> 999) = True"
  "max (- 999::int) (- 999) = - 999"
  "max (- 999::int) (- 1) = - 1"
  "max (- 999::int) (0) = 0"
  "max (- 999::int) (1) = 1"
  "max (- 999::int) (999) = 999"
  "max (- 1::int) (- 999) = - 1"
  "max (- 1::int) (- 1) = - 1"
  "max (- 1::int) (0) = 0"
  "max (- 1::int) (1) = 1"
  "max (- 1::int) (999) = 999"
  "max (0::int) (- 999) = 0"
  "max (0::int) (- 1) = 0"
  "max (0::int) (0) = 0"
  "max (0::int) (1) = 1"
  "max (0::int) (999) = 999"
  "max (1::int) (- 999) = 1"
  "max (1::int) (- 1) = 1"
  "max (1::int) (0) = 1"
  "max (1::int) (1) = 1"
  "max (1::int) (999) = 999"
  "max (999::int) (- 999) = 999"
  "max (999::int) (- 1) = 999"
  "max (999::int) (0) = 999"
  "max (999::int) (1) = 999"
  "max (999::int) (999) = 999"
  "min (- 999::int) (- 999) = - 999"
  "min (- 999::int) (- 1) = - 999"
  "min (- 999::int) (0) = - 999"
  "min (- 999::int) (1) = - 999"
  "min (- 999::int) (999) = - 999"
  "min (- 1::int) (- 999) = - 999"
  "min (- 1::int) (- 1) = - 1"
  "min (- 1::int) (0) = - 1"
  "min (- 1::int) (1) = - 1"
  "min (- 1::int) (999) = - 1"
  "min (0::int) (- 999) = - 999"
  "min (0::int) (- 1) = - 1"
  "min (0::int) (0) = 0"
  "min (0::int) (1) = 0"
  "min (0::int) (999) = 0"
  "min (1::int) (- 999) = - 999"
  "min (1::int) (- 1) = - 1"
  "min (1::int) (0) = 0"
  "min (1::int) (1) = 1"
  "min (1::int) (999) = 1"
  "min (999::int) (- 999) = - 999"
  "min (999::int) (- 1) = - 1"
  "min (999::int) (0) = 0"
  "min (999::int) (1) = 1"
  "min (999::int) (999) = 999"
  by simp_all

lemmas eval_rules = cell_eq cons_if_simps available_moves9 winner9 setitem9 same3_simps
  score_simps Let_def minimax.simps max_loop.simps min_loop.simps sum.case option.case
  prod.case if_True if_False simp_thms int_table

lemmas eval_congs = if_weak_cong sum.case_cong_weak option.case_cong_weak prod.case_cong_weak

lemma reply_0:
  "minimax (Suc (Suc (Suc (Suc (Suc (Suc (Suc (Suc (Suc (0)))))))))) [AI, EMPTY, EMPTY, EMPTY, EMPTY, EMPTY, EMPTY, EMPTY, EMPTY] HUMAN False (- 999) 999 =
     Some ([AI, EMPTY, EMPTY, EMPTY, EMPTY, EMPTY, EMPTY, EMPTY, EMPTY], Inr (0, Some 4))"
  by (simp only: eval_rules cong: eval_congs)

lemma reply_1:
  "minimax (Suc (Suc (Suc (Suc (Suc (Suc (Suc (Suc (Suc (0)))))))))) [EMPTY, AI, EMPTY, EMPTY, EMPTY, EMPTY, EMPTY, EMPTY, EMPTY] HUMAN False (- 999) 999 =
     Some ([EMPTY, AI, EMPTY, EMPTY, EMPTY, EMPTY, EMPTY, EMPTY, EMPTY], Inr (0, Some 0))"
  by (simp only: eval_rules cong: eval_congs)

lemma reply_2:
  "minimax (Suc (Suc (Suc (Suc (Suc (Suc (Suc (Suc (Suc (0)))))))))) [EMPTY, EMPTY, AI, EMPTY, EMPTY, EMPTY, EMPTY, EMPTY, EMPTY] HUMAN False (- 999) 999 =
     Some ([EMPTY, EMPTY, AI, EMPTY, EMPTY, EMPTY, EMPTY, EMPTY, EMPTY], Inr (0, Some 4))"
  by (simp only: eval_rules cong: eval_congs)

lemma reply_3:
  "minimax (Suc (Suc (Suc (Suc (Suc (Suc (Suc (Suc (Suc (0)))))))))) [EMPTY, EMPTY, EMPTY, AI, EMPTY, EMPTY, EMPTY, EMPTY, EMPTY] HUMAN False (- 999) 999 =
     Some ([EMPTY, EMPTY, EMPTY, AI, EMPTY, EMPTY, EMPTY, EMPTY, EMPTY], Inr (0, Some 0))"
  by (simp only: eval_rules cong: eval_congs)

lemma reply_4:
  "minimax (Suc (Suc (Suc (Suc (Suc (Suc (Suc (Suc (Suc (0)))))))))) [EMPTY, EMPTY, EMPTY, EMPTY, AI, EMPTY, EMPTY, EMPTY, EMPTY] HUMAN False (- 999) 999 =
     Some ([EMPTY, EMPTY, EMPTY, EMPTY, AI, EMPTY, EMPTY, EMPTY, EMPTY], Inr (0, Some 0))"
  by (simp only: eval_rules cong: eval_congs)

lemma reply_5:
  "minimax (Suc (Suc (Suc (Suc (Suc (Suc (Suc (Suc (Suc (0)))))))))) [EMPTY, EMPTY, EMPTY, EMPTY, EMPTY, AI, EMPTY, EMPTY, EMPTY] HUMAN False (- 999) 999 =
     Some ([EMPTY, EMPTY, EMPTY, EMPTY, EMPTY, AI, EMPTY, EMPTY, EMPTY], Inr (0, Some 2))"
  by (simp only: eval_rules cong: eval_congs)

lemma reply_6:
  "minimax (Suc (Suc (Suc (Suc (Suc (Suc (Suc (Suc (Suc (0)))))))))) [EMPTY, EMPTY, EMPTY, EMPTY, EMPTY, EMPTY, AI, EMPTY, EMPTY] HUMAN False (- 999) 999 =
     Some ([EMPTY, EMPTY, EMPTY, EMPTY, EMPTY, EMPTY, AI, EMPTY, EMPTY], Inr (0, Some 4))"
  by (simp only: eval_rules cong: eval_congs)

lemma reply_7:
  "minimax (Suc (Suc (Suc (Suc (Suc (Suc (Suc (Suc (Suc (0)))))))))) [EMPTY, EMPTY, EMPTY, EMPTY, EMPTY, EMPTY, EMPTY, AI, EMPTY] HUMAN False (- 999) 999 =
     Some ([EMPTY, EMPTY, EMPTY, EMPTY, EMPTY, EMPTY, EMPTY, AI, EMPTY], Inr (0, Some 1))"
  by (simp only: eval_rules cong: eval_congs)

lemma reply_8:
  "minimax (Suc (Suc (Suc (Suc (Suc (Suc (Suc (Suc (Suc (0)))))))))) [EMPTY, EMPTY, EMPTY, EMPTY, EMPTY, EMPTY, EMPTY, EMPTY, AI] HUMAN False (- 999) 999 =
     Some ([EMPTY, EMPTY, EMPTY, EMPTY, EMPTY, EMPTY, EMPTY, EMPTY, AI], Inr (0, Some 4))"
  by (simp only: eval_rules cong: eval_congs)

subsection \<open>First occurrence in ascending order\<close>

lemma sorted_before:
  fixes xs :: "nat list"
  assumes "sorted xs" and "i < length xs" and "m' \<in> set xs" and "m' < xs ! i"
  shows "\<exists>j < i. xs ! j = m'"
proof -
  from assms(3) obtain j where j: "j < length xs" "xs ! j = m'"
    by (auto simp: in_set_conv_nth)
  have "j < i"
  proof (rule ccontr)
    assume "\<not> j < i"
    then have "i \<le> j" by simp
    from sorted_nth_mono[OF assms(1) this j(1)] j(2) assms(4) show False by simp
  qed
  with j show ?thesis by blast
qed

lemma find_first_sorted:
  fixes xs :: "nat list"
  assumes "sorted xs" and "find P xs = Some m" and "m' \<in> set xs" and "m' < m"
  shows "\<not> P m'"
proof -
  from assms(2) obtain i where i: "i < length xs" "m = xs ! i" "\<forall>j < i. \<not> P (xs ! j)"
    by (auto simp: find_Some_iff)
  from sorted_before[OF assms(1) i(1) assms(3)] assms(4) i(2)
  obtain j where "j < i" "xs ! j = m'" by blast
  with i(3) show ?thesis by blast
qed

lemma find_Some_mem: "find P xs = Some m \<Longrightarrow> m \<in> set xs \<and> P m"
  by (auto simp: find_Some_iff)

lemma find_exists: "x \<in> set xs \<Longrightarrow> P x \<Longrightarrow> \<exists>m. find P xs = Some m"
  by (cases "find P xs") (auto simp: find_None_iff)

lemma child_score_plain:
  assumes "length board = 9" and "11 \<le> n"
  shows "search_score n (board[m := player]) p mx = plain_value (board[m := player]) p mx"
proof -
  have len: "length (board[m := player]) = 9" using assms(1) by simp
  from search_score_plain[OF len depth_11[OF len assms(2)]] show ?thesis .
qed

lemma plain_first_max:
  fixes board :: board and player :: string
  assumes wn: "winner board = Inr None"
  defines "g \<equiv> \<lambda>m. plain_value (board[m := player]) (if player = AI then HUMAN else AI) False"
  shows "\<exists>m. plain_minimax board player True = (plain_value board player True, Some m) \<and>
     m \<in> set (available_moves board) \<and> g m = plain_value board player True \<and>
     (\<forall>m' \<in> set (available_moves board).
        g m' \<le> plain_value board player True \<and> (m' < m \<longrightarrow> g m' < plain_value board player True))"
proof -
  let ?ms = "available_moves board"
  let ?S = "g ` set ?ms"
  have v: "plain_value board player True = Max ?S"
    unfolding g_def by (rule plain_value_max[OF wn])
  have fin: "finite ?S" by simp
  have ne: "?S \<noteq> {}" using winner_None_moves[OF wn] by simp
  from Max_in[OF fin ne] obtain m0 where m0: "m0 \<in> set ?ms" "g m0 = Max ?S" by auto
  from find_exists[of m0 ?ms "\<lambda>m. g m = Max ?S"] m0
  obtain m where m: "find (\<lambda>m. g m = Max ?S) ?ms = Some m" by blast
  have le: "g m' \<le> Max ?S" if "m' \<in> set ?ms" for m'
    using that by (intro Max_ge[OF fin]) simp
  have lt: "g m' < Max ?S" if "m' \<in> set ?ms" "m' < m" for m'
    using find_first_sorted[OF sorted_available_moves m that] le[OF that(1)] by simp
  have "plain_move board player True = Some m"
    using m by (simp add: plain_move_def wn v g_def)
  with find_Some_mem[OF m] le lt show ?thesis
    by (auto simp: plain_minimax_def v)
qed

lemma plain_first_min:
  fixes board :: board and player :: string
  assumes wn: "winner board = Inr None"
  defines "g \<equiv> \<lambda>m. plain_value (board[m := player]) (if player = AI then HUMAN else AI) True"
  shows "\<exists>m. plain_minimax board player False = (plain_value board player False, Some m) \<and>
     m \<in> set (available_moves board) \<and> g m = plain_value board player False \<and>
     (\<forall>m' \<in> set (available_moves board).
        plain_value board player False \<le> g m' \<and> (m' < m \<longrightarrow> plain_value board player False < g m'))"
proof -
  let ?ms = "available_moves board"
  let ?S = "g ` set ?ms"
  have v: "plain_value board player False = Min ?S"
    unfolding g_def by (rule plain_value_min[OF wn])
  have fin: "finite ?S" by simp
  have ne: "?S \<noteq> {}" using winner_None_moves[OF wn] by simp
  from Min_in[OF fin ne] obtain m0 where m0: "m0 \<in> set ?ms" "g m0 = Min ?S" by auto
  from find_exists[of m0 ?ms "\<lambda>m. g m = Min ?S"] m0
  obtain m where m: "find (\<lambda>m. g m = Min ?S) ?ms = Some m" by blast
  have le: "Min ?S \<le> g m'" if "m' \<in> set ?ms" for m'
    using that by (intro Min_le[OF fin]) simp
  have lt: "Min ?S < g m'" if "m' \<in> set ?ms" "m' < m" for m'
    using find_first_sorted[OF sorted_available_moves m that] le[OF that(1)] by simp
  have "plain_move board player False = Some m"
    using m by (simp add: plain_move_def wn v g_def)
  with find_Some_mem[OF m] le lt show ?thesis
    by (auto simp: plain_minimax_def v)
qed

lemma ai_move_first_best:
  fixes board :: board
  assumes len: "length board = 9" and n: "11 \<le> n" and ne: "EMPTY \<in> set board"
  defines "g \<equiv> \<lambda>m. plain_value (board[m := AI]) HUMAN False"
  shows "\<exists>move. ai_move n board =
       Some (board, Inr (move, win_probability (map g (available_moves board)))) \<and>
     move \<in> set (available_moves board) \<and>
     (\<forall>m' \<in> set (available_moves board). g m' \<le> g move \<and> (m' < move \<longrightarrow> g m' < g move))"
proof -
  let ?ms = "available_moves board"
  let ?os = "map g ?ms"
  from ai_move_choice[OF len n ne] obtain i where i: "i < length ?ms"
    "ai_move n board = Some (board, Inr (?ms ! i, win_probability ?os))"
    "?os ! i = Max (set ?os)" "\<forall>j < i. ?os ! j \<noteq> Max (set ?os)"
    unfolding g_def by blast
  have gi: "g (?ms ! i) = Max (set ?os)" using i(1,3) by simp
  have le: "g m' \<le> Max (set ?os)" if "m' \<in> set ?ms" for m'
    using that by (intro Max_ge) simp_all
  have lt: "g m' < Max (set ?os)" if "m' \<in> set ?ms" "m' < ?ms ! i" for m'
  proof -
    from sorted_before[OF sorted_available_moves i(1) that] obtain j where
      j: "j < i" "?ms ! j = m'" by blast
    with i(1,4) have "g m' \<noteq> Max (set ?os)" by auto
    with le[OF that(1)] show ?thesis by simp
  qed
  from i(1) have "?ms ! i \<in> set ?ms" by simp
  with i(2) gi le lt show ?thesis by auto
qed

subsection \<open>The empty board\<close>

lemma plain_from_run:
  assumes "minimax n board player maximizing (- 999) 999 = Some (board, Inr (v, mv))"
    and "length board = 9" and "depth board player < n"
  shows "plain_value board player maximizing = v"
  using minimax_full[OF assms(2,3), of maximizing] assms(1)
  by (simp add: plain_minimax_def)

lemma reply_value_0: "plain_value [AI, EMPTY, EMPTY, EMPTY, EMPTY, EMPTY, EMPTY, EMPTY, EMPTY] HUMAN False = 0"
  by (rule plain_from_run[OF reply_0]) (simp_all add: depth_def cell_neq)

lemma reply_value_1: "plain_value [EMPTY, AI, EMPTY, EMPTY, EMPTY, EMPTY, EMPTY, EMPTY, EMPTY] HUMAN False = 0"
  by (rule plain_from_run[OF reply_1]) (simp_all add: depth_def cell_neq)

lemma reply_value_2: "plain_value [EMPTY, EMPTY, AI, EMPTY, EMPTY, EMPTY, EMPTY, EMPTY, EMPTY] HUMAN False = 0"
  by (rule plain_from_run[OF reply_2]) (simp_all add: depth_def cell_neq)

lemma reply_value_3: "plain_value [EMPTY, EMPTY, EMPTY, AI, EMPTY, EMPTY, EMPTY, EMPTY, EMPTY] HUMAN False = 0"
  by (rule plain_from_run[OF reply_3]) (simp_all add: depth_def cell_neq)

lemma reply_value_4: "plain_value [EMPTY, EMPTY, EMPTY, EMPTY, AI, EMPTY, EMPTY, EMPTY, EMPTY] HUMAN False = 0"
  by (rule plain_from_run[OF reply_4]) (simp_all add: depth_def cell_neq)

lemma reply_value_5: "plain_value [EMPTY, EMPTY, EMPTY, EMPTY, EMPTY, AI, EMPTY, EMPTY, EMPTY] HUMAN False = 0"
  by (rule plain_from_run[OF reply_5]) (simp_all add: depth_def cell_neq)

lemma reply_value_6: "plain_value [EMPTY, EMPTY, EMPTY, EMPTY, EMPTY, EMPTY, AI, EMPTY, EMPTY] HUMAN False = 0"
  by (rule plain_from_run[OF reply_6]) (simp_all add: depth_def cell_neq)

lemma reply_value_7: "plain_value [EMPTY, EMPTY, EMPTY, EMPTY, EMPTY, EMPTY, EMPTY, AI, EMPTY] HUMAN False = 0"
  by (rule plain_from_run[OF reply_7]) (simp_all add: depth_def cell_neq)

lemma reply_value_8: "plain_value [EMPTY, EMPTY, EMPTY, EMPTY, EMPTY, EMPTY, EMPTY, EMPTY, AI] HUMAN False = 0"
  by (rule plain_from_run[OF reply_8]) (simp_all add: depth_def cell_neq)

lemma available_moves_empty:
  "available_moves [EMPTY, EMPTY, EMPTY, EMPTY, EMPTY, EMPTY, EMPTY, EMPTY, EMPTY] = [0, 1, 2, 3, 4, 5, 6, 7, 8]"
  by (simp only: available_moves9 cons_if_simps simp_thms)

lemma empty_outcomes:
  "map (\<lambda>m. plain_value ([EMPTY, EMPTY, EMPTY, EMPTY, EMPTY, EMPTY, EMPTY, EMPTY, EMPTY][m := AI]) HUMAN False) (available_moves [EMPTY, EMPTY, EMPTY, EMPTY, EMPTY, EMPTY, EMPTY, EMPTY, EMPTY]) =
     [0, 0, 0, 0, 0, 0, 0, 0, 0]"
  by (simp add: available_moves_empty reply_value_0 reply_value_1 reply_value_2 reply_value_3
      reply_value_4 reply_value_5 reply_value_6 reply_value_7 reply_value_8)

lemma win_probability_draws: "win_probability [0, 0, 0, 0, 0, 0, 0, 0, 0] = 1 / 2"
  by (simp add: win_probability_def)

lemma ai_move_empty:
  assumes "11 \<le> n"
  shows "ai_move n [EMPTY, EMPTY, EMPTY, EMPTY, EMPTY, EMPTY, EMPTY, EMPTY, EMPTY] = Some ([EMPTY, EMPTY, EMPTY, EMPTY, EMPTY, EMPTY, EMPTY, EMPTY, EMPTY], Inr (0, 1 / 2))"
proof -
  let ?E = "[EMPTY, EMPTY, EMPTY, EMPTY, EMPTY, EMPTY, EMPTY, EMPTY, EMPTY]"
  have len: "length ?E = 9" by simp
  have e: "EMPTY \<in> set ?E" by simp
  from ai_move_first_best[OF len assms e] obtain move where
    mv: "ai_move n ?E = Some (?E, Inr (move, win_probability
           (map (\<lambda>m. plain_value (?E[m := AI]) HUMAN False) (available_moves ?E))))"
    and mem: "move \<in> set (available_moves ?E)"
    and first: "\<forall>m' \<in> set (available_moves ?E).
        plain_value (?E[m' := AI]) HUMAN False \<le> plain_value (?E[move := AI]) HUMAN False \<and>
        (m' < move \<longrightarrow>
         plain_value (?E[m' := AI]) HUMAN False < plain_value (?E[move := AI]) HUMAN False)"
    by (elim exE conjE)
  have all0: "plain_value (?E[m := AI]) HUMAN False = 0" if "m \<in> set (available_moves ?E)" for m
  proof -
    from that have "plain_value (?E[m := AI]) HUMAN False \<in>
        set (map (\<lambda>m. plain_value (?E[m := AI]) HUMAN False) (available_moves ?E))"
      by simp
    then show ?thesis unfolding empty_outcomes by simp
  qed
  have zero: "(0::nat) \<in> set (available_moves ?E)" by (simp add: available_moves_empty)
  have "move = 0"
  proof (rule ccontr)
    assume "move \<noteq> 0"
    then have "0 < move" by simp
    with first zero have "plain_value (?E[0 := AI]) HUMAN False <
        plain_value (?E[move := AI]) HUMAN False" by blast
    with all0[OF zero] all0[OF mem] show False by simp
  qed
  with mv show ?thesis by (simp only: empty_outcomes win_probability_draws)
qed

text \<open>After any first move of \<open>HUMAN\<close>, a search with the window (-1, 0).\<close>

lemma opening_0:
  "minimax (Suc (Suc (Suc (Suc (Suc (Suc (Suc (Suc (Suc (0)))))))))) [HUMAN, EMPTY, EMPTY, EMPTY, EMPTY, EMPTY, EMPTY, EMPTY, EMPTY] AI True (- 1) 0 =
     Some ([HUMAN, EMPTY, EMPTY, EMPTY, EMPTY, EMPTY, EMPTY, EMPTY, EMPTY], Inr (0, Some 4))"
  by (simp only: eval_rules cong: eval_congs)

lemma opening_1:
  "minimax (Suc (Suc (Suc (Suc (Suc (Suc (Suc (Suc (Suc (0)))))))))) [EMPTY, HUMAN, EMPTY, EMPTY, EMPTY, EMPTY, EMPTY, EMPTY, EMPTY] AI True (- 1) 0 =
     Some ([EMPTY, HUMAN, EMPTY, EMPTY, EMPTY, EMPTY, EMPTY, EMPTY, EMPTY], Inr (0, Some 0))"
  by (simp only: eval_rules cong: eval_congs)

lemma opening_2:
  "minimax (Suc (Suc (Suc (Suc (Suc (Suc (Suc (Suc (Suc (0)))))))))) [EMPTY, EMPTY, HUMAN, EMPTY, EMPTY, EMPTY, EMPTY, EMPTY, EMPTY] AI True (- 1) 0 =
     Some ([EMPTY, EMPTY, HUMAN, EMPTY, EMPTY, EMPTY, EMPTY, EMPTY, EMPTY], Inr (0, Some 4))"
  by (simp only: eval_rules cong: eval_congs)

lemma opening_3:
  "minimax (Suc (Suc (Suc (Suc (Suc (Suc (Suc (Suc (Suc (0)))))))))) [EMPTY, EMPTY, EMPTY, HUMAN, EMPTY, EMPTY, EMPTY, EMPTY, EMPTY] AI True (- 1) 0 =
     Some ([EMPTY, EMPTY, EMPTY, HUMAN, EMPTY, EMPTY, EMPTY, EMPTY, EMPTY], Inr (0, Some 0))"
  by (simp only: eval_rules cong: eval_congs)

lemma opening_4:
  "minimax (Suc (Suc (Suc (Suc (Suc (Suc (Suc (Suc (Suc (0)))))))))) [EMPTY, EMPTY, EMPTY, EMPTY, HUMAN, EMPTY, EMPTY, EMPTY, EMPTY] AI True (- 1) 0 =
     Some ([EMPTY, EMPTY, EMPTY, EMPTY, HUMAN, EMPTY, EMPTY, EMPTY, EMPTY], Inr (0, Some 0))"
  by (simp only: eval_rules cong: eval_congs)

lemma opening_5:
  "minimax (Suc (Suc (Suc (Suc (Suc (Suc (Suc (Suc (Suc (0)))))))))) [EMPTY, EMPTY, EMPTY, EMPTY, EMPTY, HUMAN, EMPTY, EMPTY, EMPTY] AI True (- 1) 0 =
     Some ([EMPTY, EMPTY, EMPTY, EMPTY, EMPTY, HUMAN, EMPTY, EMPTY, EMPTY], Inr (0, Some 2))"
  by (simp only: eval_rules cong: eval_congs)

lemma opening_6:
  "minimax (Suc (Suc (Suc (Suc (Suc (Suc (Suc (Suc (Suc (0)))))))))) [EMPTY, EMPTY, EMPTY, EMPTY, EMPTY, EMPTY, HUMAN, EMPTY, EMPTY] AI True (- 1) 0 =
     Some ([EMPTY, EMPTY, EMPTY, EMPTY, EMPTY, EMPTY, HUMAN, EMPTY, EMPTY], Inr (0, Some 4))"
  by (simp only: eval_rules cong: eval_congs)

lemma opening_7:
  "minimax (Suc (Suc (Suc (Suc (Suc (Suc (Suc (Suc (Suc (0)))))))))) [EMPTY, EMPTY, EMPTY, EMPTY, EMPTY, EMPTY, EMPTY, HUMAN, EMPTY] AI True (- 1) 0 =
     Some ([EMPTY, EMPTY, EMPTY, EMPTY, EMPTY, EMPTY, EMPTY, HUMAN, EMPTY], Inr (0, Some 1))"
  by (simp only: eval_rules cong: eval_congs)

lemma opening_8:
  "minimax (Suc (Suc (Suc (Suc (Suc (Suc (Suc (Suc (Suc (0)))))))))) [EMPTY, EMPTY, EMPTY, EMPTY, EMPTY, EMPTY, EMPTY, EMPTY, HUMAN] AI True (- 1) 0 =
     Some ([EMPTY, EMPTY, EMPTY, EMPTY, EMPTY, EMPTY, EMPTY, EMPTY, HUMAN], Inr (0, Some 4))"
  by (simp only: eval_rules cong: eval_congs)

subsection \<open>Self-play\<close>

lemma score_not_lost:
  "0 \<le> score_for AI (Some w) \<Longrightarrow> w = AI \<or> w = ''Draw''"
  by (simp add: score_for_def split: if_splits)

lemma setitem_move:
  "m \<in> set (available_moves board) \<Longrightarrow> setitem board m v = Inr (board[m := v])"
  by (simp add: setitem_def set_available_moves)

lemma count_after_move:
  assumes "m \<in> set (available_moves board)" and "v \<noteq> EMPTY"
    and "count_list board EMPTY < Suc k"
  shows "count_list (board[m := v]) EMPTY < k"
proof -
  from assms(1) have "m < length board" "board ! m = EMPTY"
    by (simp_all add: set_available_moves)
  from count_list_update[OF this assms(2)] assms(3) show ?thesis by simp
qed

lemma ai_move_keeps_value:
  assumes len: "length board = 9" and n: "11 \<le> n" and wn: "winner board = Inr None"
  shows "\<exists>move prob. ai_move n board = Some (board, Inr (move, prob)) \<and>
     move \<in> set (available_moves board) \<and>
     plain_value (board[move := AI]) HUMAN False = plain_value board AI True"
proof -
  let ?ms = "available_moves board"
  let ?g = "\<lambda>m. plain_value (board[m := AI]) HUMAN False"
  from winner_None[OF wn] have e: "EMPTY \<in> set board" .
  from ai_move_first_best[OF len n e] obtain move where
    mv: "ai_move n board = Some (board, Inr (move, win_probability (map ?g ?ms)))"
    and mem: "move \<in> set ?ms"
    and best: "\<forall>m' \<in> set ?ms. ?g m' \<le> ?g move \<and> (m' < move \<longrightarrow> ?g m' < ?g move)"
    by (elim exE conjE)
  have "Max (?g ` set ?ms) = ?g move"
  proof (rule Max_eqI)
    show "finite (?g ` set ?ms)" by simp
    show "y \<le> ?g move" if "y \<in> ?g ` set ?ms" for y using that best by auto
    show "?g move \<in> ?g ` set ?ms" using mem by simp
  qed
  moreover have "plain_value board AI True = Max (?g ` set ?ms)"
    using plain_value_max[OF wn, of AI] by simp
  ultimately have "?g move = plain_value board AI True" by simp
  with mv mem show ?thesis by blast
qed

lemma human_move_keeps_value:
  assumes wn: "winner board = Inr None" and m: "m \<in> set (available_moves board)"
  shows "plain_value board HUMAN False \<le> plain_value (board[m := HUMAN]) AI True"
proof -
  let ?g = "\<lambda>m. plain_value (board[m := HUMAN]) AI True"
  have "plain_value board HUMAN False = Min (?g ` set (available_moves board))"
    using plain_value_min[OF wn, of HUMAN] by (simp add: cell_neq)
  also have "\<dots> \<le> ?g m" using m by (intro Min_le) simp_all
  finally show ?thesis .
qed

lemma self_play_safe:
  assumes "11 \<le> n"
    and "\<forall>b. length b = 9 \<and> winner b = Inr None \<longrightarrow> opp b \<in> set (available_moves b)"
  shows "length board = 9 \<Longrightarrow> count_list board EMPTY < k \<Longrightarrow>
     0 \<le> plain_value board (if ai_turn then AI else HUMAN) ai_turn \<Longrightarrow>
     \<exists>w. self_play k n opp board ai_turn = Some (Inr w) \<and> (w = AI \<or> w = ''Draw'')"
proof (induction k arbitrary: board ai_turn)
  case 0
  then show ?case by simp
next
  case (Suc k)
  from winner_total[OF Suc.prems(1)] obtain w where w: "winner board = Inr w" ..
  show ?case
  proof (cases w)
    case (Some s)
    with w Suc.prems(3) have "0 \<le> score_for AI (Some s)"
      by (simp add: plain_value_terminal)
    from score_not_lost[OF this] w Some show ?thesis by simp
  next
    case None
    with w have wn: "winner board = Inr None" by simp
    show ?thesis
    proof (cases ai_turn)
      case True
      from ai_move_keeps_value[OF Suc.prems(1) assms(1) wn] obtain move prob where
        mv: "ai_move n board = Some (board, Inr (move, prob))"
        and mem: "move \<in> set (available_moves board)"
        and val: "plain_value (board[move := AI]) HUMAN False = plain_value board AI True"
        by blast
      have "\<exists>w. self_play k n opp (board[move := AI]) False = Some (Inr w) \<and>
                (w = AI \<or> w = ''Draw'')"
      proof (rule Suc.IH)
        show "length (board[move := AI]) = 9" using Suc.prems(1) by simp
        show "count_list (board[move := AI]) EMPTY < k"
          using count_after_move[OF mem _ Suc.prems(2)] by (simp add: cell_neq)
        show "0 \<le> plain_value (board[move := AI]) (if False then AI else HUMAN) False"
          using val Suc.prems(3) True by simp
      qed
      with wn True mv setitem_move[OF mem, of AI] show ?thesis by simp
    next
      case False
      from assms(2) Suc.prems(1) wn have mem: "opp board \<in> set (available_moves board)"
        by blast
      have "\<exists>w. self_play k n opp (board[opp board := HUMAN]) True = Some (Inr w) \<and>
                (w = AI \<or> w = ''Draw'')"
      proof (rule Suc.IH)
        show "length (board[opp board := HUMAN]) = 9" using Suc.prems(1) by simp
        show "count_list (board[opp board := HUMAN]) EMPTY < k"
          using count_after_move[OF mem _ Suc.prems(2)] by (simp add: cell_neq)
        show "0 \<le> plain_value (board[opp board := HUMAN]) (if True then AI else HUMAN) True"
          using human_move_keeps_value[OF wn mem] Suc.prems(3) False by simp
      qed
      with wn False setitem_move[OF mem, of HUMAN] show ?thesis by simp
    qed
  qed
qed

lemma optimal_reply_legal:
  assumes "length board = 9" and "11 \<le> n" and "winner board = Inr None"
  shows "optimal_reply n board \<in> set (available_moves board)"
proof -
  note dep = depth_11[OF assms(1,2), of HUMAN]
  obtain s mv where r: "search_result n board HUMAN False (- 999) 999 = (s, mv)"
    by (cases "search_result n board HUMAN False (- 999) 999")
  from search_range[OF assms(1) dep, of False "- 999" 999] r assms(3)
  obtain m where m: "mv = Some m" "m \<in> set (available_moves board)" by auto
  from minimax_result[OF assms(1) dep, of False "- 999" 999] r m
  show ?thesis by (simp add: optimal_reply_def)
qed

lemma not_lost_from_window:
  assumes "minimax n board player maximizing (- 1) 0 = Some (board, Inr (r, mv))"
    and "length board = 9" and "depth board player < n" and "0 \<le> r"
  shows "0 \<le> plain_value board player maximizing"
proof -
  from assms(1) have "fst (search_result n board player maximizing (- 1) 0) = r"
    by (simp add: search_result_def)
  with search_window[OF assms(2,3), of "- 1" 0 maximizing]
  have "within_window (- 1) 0 (plain_value board player maximizing) r" by simp
  with assms(4) show ?thesis by (simp add: within_window_def)
qed

lemma opening_value_0: "0 \<le> plain_value [HUMAN, EMPTY, EMPTY, EMPTY, EMPTY, EMPTY, EMPTY, EMPTY, EMPTY] AI True"
  by (rule not_lost_from_window[OF opening_0]) (simp_all add: depth_def cell_neq)

lemma opening_value_1: "0 \<le> plain_value [EMPTY, HUMAN, EMPTY, EMPTY, EMPTY, EMPTY, EMPTY, EMPTY, EMPTY] AI True"
  by (rule not_lost_from_window[OF opening_1]) (simp_all add: depth_def cell_neq)

lemma opening_value_2: "0 \<le> plain_value [EMPTY, EMPTY, HUMAN, EMPTY, EMPTY, EMPTY, EMPTY, EMPTY, EMPTY] AI True"
  by (rule not_lost_from_window[OF opening_2]) (simp_all add: depth_def cell_neq)

lemma opening_value_3: "0 \<le> plain_value [EMPTY, EMPTY, EMPTY, HUMAN, EMPTY, EMPTY, EMPTY, EMPTY, EMPTY] AI True"
  by (rule not_lost_from_window[OF opening_3]) (simp_all add: depth_def cell_neq)

lemma opening_value_4: "0 \<le> plain_value [EMPTY, EMPTY, EMPTY, EMPTY, HUMAN, EMPTY, EMPTY, EMPTY, EMPTY] AI True"
  by (rule not_lost_from_window[OF opening_4]) (simp_all add: depth_def cell_neq)

lemma opening_value_5: "0 \<le> plain_value [EMPTY, EMPTY, EMPTY, EMPTY, EMPTY, HUMAN, EMPTY, EMPTY, EMPTY] AI True"
  by (rule not_lost_from_window[OF opening_5]) (simp_all add: depth_def cell_neq)

lemma opening_value_6: "0 \<le> plain_value [EMPTY, EMPTY, EMPTY, EMPTY, EMPTY, EMPTY, HUMAN, EMPTY, EMPTY] AI True"
  by (rule not_lost_from_window[OF opening_6]) (simp_all add: depth_def cell_neq)

lemma opening_value_7: "0 \<le> plain_value [EMPTY, EMPTY, EMPTY, EMPTY, EMPTY, EMPTY, EMPTY, HUMAN, EMPTY] AI True"
  by (rule not_lost_from_window[OF opening_7]) (simp_all add: depth_def cell_neq)

lemma opening_value_8: "0 \<le> plain_value [EMPTY, EMPTY, EMPTY, EMPTY, EMPTY, EMPTY, EMPTY, EMPTY, HUMAN] AI True"
  by (rule not_lost_from_window[OF opening_8]) (simp_all add: depth_def cell_neq)

lemma winner_empty: "winner [EMPTY, EMPTY, EMPTY, EMPTY, EMPTY, EMPTY, EMPTY, EMPTY, EMPTY] = Inr None"
  by (simp only: eval_rules cong: eval_congs)

lemma empty_value_ai: "plain_value [EMPTY, EMPTY, EMPTY, EMPTY, EMPTY, EMPTY, EMPTY, EMPTY, EMPTY] AI True = 0"
proof -
  have "plain_value [EMPTY, EMPTY, EMPTY, EMPTY, EMPTY, EMPTY, EMPTY, EMPTY, EMPTY] AI True =
      Max (set (map (\<lambda>m. plain_value ([EMPTY, EMPTY, EMPTY, EMPTY, EMPTY, EMPTY, EMPTY, EMPTY, EMPTY][m := AI]) HUMAN False)
        (available_moves [EMPTY, EMPTY, EMPTY, EMPTY, EMPTY, EMPTY, EMPTY, EMPTY, EMPTY])))"
    using plain_value_max[OF winner_empty, of AI] by simp
  then show ?thesis unfolding empty_outcomes by simp
qed

lemma empty_value_human: "0 \<le> plain_value [EMPTY, EMPTY, EMPTY, EMPTY, EMPTY, EMPTY, EMPTY, EMPTY, EMPTY] HUMAN False"
proof -
  let ?E = "[EMPTY, EMPTY, EMPTY, EMPTY, EMPTY, EMPTY, EMPTY, EMPTY, EMPTY]"
  let ?g = "\<lambda>m. plain_value (?E[m := HUMAN]) AI True"
  have v: "plain_value ?E HUMAN False = Min (?g ` set (available_moves ?E))"
    using plain_value_min[OF winner_empty, of HUMAN] by (simp add: cell_neq)
  have each: "\<forall>m \<in> set (available_moves ?E). 0 \<le> ?g m"
    unfolding available_moves_empty
    using opening_value_0 opening_value_1 opening_value_2 opening_value_3 opening_value_4
      opening_value_5 opening_value_6 opening_value_7 opening_value_8
    by simp
  have fin: "finite (?g ` set (available_moves ?E))" by simp
  have ne: "?g ` set (available_moves ?E) \<noteq> {}" by (simp add: available_moves_empty)
  from each have "0 \<le> Min (?g ` set (available_moves ?E))"
    unfolding Min_ge_iff[OF fin ne] by blast
  with v show ?thesis by simp
qed

lemma self_play_empty:
  assumes "11 \<le> n" and "10 \<le> k"
    and "\<forall>b. length b = 9 \<and> winner b = Inr None \<longrightarrow> opp b \<in> set (available_moves b)"
  shows "\<exists>w. self_play k n opp [EMPTY, EMPTY, EMPTY, EMPTY, EMPTY, EMPTY, EMPTY, EMPTY, EMPTY] ai_turn = Some (Inr w) \<and> (w = AI \<or> w = ''Draw'')"
proof (rule self_play_safe[OF assms(1,3)])
  show "length [EMPTY, EMPTY, EMPTY, EMPTY, EMPTY, EMPTY, EMPTY, EMPTY, EMPTY] = 9" by simp
  show "count_list [EMPTY, EMPTY, EMPTY, EMPTY, EMPTY, EMPTY, EMPTY, EMPTY, EMPTY] EMPTY < k" using assms(2) by simp
  show "0 \<le> plain_value [EMPTY, EMPTY, EMPTY, EMPTY, EMPTY, EMPTY, EMPTY, EMPTY, EMPTY] (if ai_turn then AI else HUMAN) ai_turn"
    using empty_value_ai empty_value_human by (cases ai_turn) simp_all
qed

subsection \<open>Held lines\<close>

lemma line_test:
  "(case l of (a, b, c) \<Rightarrow> board ! a = board ! b \<and> board ! b = board ! c \<and> board ! c \<noteq> EMPTY) \<longleftrightarrow>
   (\<exists>s. s \<noteq> EMPTY \<and> line_held board s l)"
  by (cases l) (auto simp: line_held_def)

lemma line_owner:
  "s \<noteq> EMPTY \<Longrightarrow> line_held board s l \<Longrightarrow> (case l of (a, b, c) \<Rightarrow> Some (board ! a)) = Some s"
  by (cases l) (auto simp: line_held_def)

lemma winner_first_line:
  assumes "length board = 9"
  shows "winner board =
     Inr (case find (\<lambda>l. \<exists>s. s \<noteq> EMPTY \<and> line_held board s l) WIN_LINES of
            Some l \<Rightarrow> (case l of (a, b, c) \<Rightarrow> Some (board ! a))
          | None \<Rightarrow> if EMPTY \<notin> set board then Some ''Draw'' else None)"
proof -
  have "(\<lambda>(a, b, c). board ! a = board ! b \<and> board ! b = board ! c \<and> board ! c \<noteq> EMPTY) =
        (\<lambda>l. \<exists>s. s \<noteq> EMPTY \<and> line_held board s l)"
    using line_test[where board = board] by (intro ext) simp
  with winner_find[OF assms] show ?thesis
    by (simp split: option.splits prod.splits)
qed

lemma winner_at_first:
  assumes "length board = 9" and "i < length WIN_LINES"
    and "s \<noteq> EMPTY" and "line_held board s (WIN_LINES ! i)"
    and "\<forall>j < i. \<forall>t. t \<noteq> EMPTY \<longrightarrow> \<not> line_held board t (WIN_LINES ! j)"
  shows "winner board = Inr (Some s)"
proof -
  have "find (\<lambda>l. \<exists>s. s \<noteq> EMPTY \<and> line_held board s l) WIN_LINES = Some (WIN_LINES ! i)"
    unfolding find_Some_iff using assms(2-5) by blast
  then have "winner board = Inr (case WIN_LINES ! i of (a, b, c) \<Rightarrow> Some (board ! a))"
    by (simp only: winner_first_line[OF assms(1)] option.case)
  then show ?thesis by (simp only: line_owner[OF assms(3,4)])
qed

lemma winner_side_holds:
  assumes "length board = 9" and "winner board = Inr (Some s)"
  shows "holds_line board s \<or> (s = ''Draw'' \<and> \<not> (\<exists>t. holds_line board t) \<and> EMPTY \<notin> set board)"
proof (cases "find (\<lambda>l. \<exists>s. s \<noteq> EMPTY \<and> line_held board s l) WIN_LINES")
  case None
  then have "\<forall>l \<in> set WIN_LINES. \<not> (\<exists>s. s \<noteq> EMPTY \<and> line_held board s l)"
    unfolding find_None_iff by blast
  then have no: "\<not> (\<exists>t. holds_line board t)" unfolding holds_line_def by blast
  from None have "winner board = Inr (if EMPTY \<notin> set board then Some ''Draw'' else None)"
    by (simp only: winner_first_line[OF assms(1)] option.case)
  with assms(2) have "s = ''Draw'' \<and> EMPTY \<notin> set board" by (simp split: if_splits)
  with no show ?thesis by blast
next
  case (Some l)
  then obtain t where t: "l \<in> set WIN_LINES" "t \<noteq> EMPTY" "line_held board t l"
    by (auto simp: find_Some_iff)
  from Some have "winner board = Inr (case l of (a, b, c) \<Rightarrow> Some (board ! a))"
    by (simp only: winner_first_line[OF assms(1)] option.case)
  then have "winner board = Inr (Some t)" by (simp only: line_owner[OF t(2,3)])
  with assms(2) have "s = t" by simp
  with t show ?thesis unfolding holds_line_def by blast
qed

lemma winner_some_holder:
  assumes "length board = 9" and "holds_line board t"
  shows "\<exists>s. holds_line board s \<and> winner board = Inr (Some s)"
proof (cases "find (\<lambda>l. \<exists>s. s \<noteq> EMPTY \<and> line_held board s l) WIN_LINES")
  case None
  then have "\<forall>l \<in> set WIN_LINES. \<not> (\<exists>s. s \<noteq> EMPTY \<and> line_held board s l)"
    unfolding find_None_iff by blast
  with assms(2) have False unfolding holds_line_def by blast
  then show ?thesis ..
next
  case (Some l)
  then obtain s where s: "l \<in> set WIN_LINES" "s \<noteq> EMPTY" "line_held board s l"
    by (auto simp: find_Some_iff)
  from Some have "winner board = Inr (case l of (a, b, c) \<Rightarrow> Some (board ! a))"
    by (simp only: winner_first_line[OF assms(1)] option.case)
  then have "winner board = Inr (Some s)" by (simp only: line_owner[OF s(2,3)])
  with s show ?thesis unfolding holds_line_def by blast
qed

lemma winner_no_holder:
  assumes "length board = 9" and "\<not> (\<exists>s. holds_line board s)"
  shows "winner board = Inr (if EMPTY \<notin> set board then Some ''Draw'' else None)"
proof -
  from assms(2) have "\<forall>l \<in> set WIN_LINES. \<not> (\<exists>s. s \<noteq> EMPTY \<and> line_held board s l)"
    unfolding holds_line_def by blast
  then have "find (\<lambda>l. \<exists>s. s \<noteq> EMPTY \<and> line_held board s l) WIN_LINES = None"
    unfolding find_None_iff by blast
  then show ?thesis by (simp only: winner_first_line[OF assms(1)] option.case)
qed

lemma two_winners:
  "winner [HUMAN, HUMAN, HUMAN, AI, AI, AI, EMPTY, EMPTY, EMPTY] = Inr (Some HUMAN)"
  "holds_line [HUMAN, HUMAN, HUMAN, AI, AI, AI, EMPTY, EMPTY, EMPTY] AI"
proof -
  show "winner [HUMAN, HUMAN, HUMAN, AI, AI, AI, EMPTY, EMPTY, EMPTY] = Inr (Some HUMAN)"
    by (simp only: eval_rules cong: eval_congs)
  have "(3, 4, 5) \<in> set WIN_LINES" by (simp add: WIN_LINES_def)
  moreover have "line_held [HUMAN, HUMAN, HUMAN, AI, AI, AI, EMPTY, EMPTY, EMPTY] AI (3, 4, 5)"
    by (simp add: line_held_def)
  ultimately show "holds_line [HUMAN, HUMAN, HUMAN, AI, AI, AI, EMPTY, EMPTY, EMPTY] AI"
    unfolding holds_line_def using cell_neq by blast
qed

section \<open>The claims\<close>

text \<open>
  C1. For every 9-cell board, the (score, move) pair that \<open>minimax\<close> returns when called
  with alpha = -999 and beta = 999 is the result of the plain, unpruned exhaustive
  minimax over the same board: the cutoff changes neither the value nor the move. Fuel 11
  is enough for every 9-cell board, and the board is handed back as it was.
\<close>

theorem pruning_equivalence:
  assumes "length board = 9" and "11 \<le> n"
  shows "minimax n board player maximizing (- 999) 999 =
         Some (board, Inr (plain_minimax board player maximizing))"
  using minimax_full[OF assms(1) depth_11[OF assms]] .

theorem pruning_equivalence_witness:
  "length [HUMAN, AI, HUMAN, AI, EMPTY, EMPTY, EMPTY, EMPTY, EMPTY] = 9 \<and> (11::nat) \<le> 11 \<and>
   minimax 11 [HUMAN, AI, HUMAN, AI, EMPTY, EMPTY, EMPTY, EMPTY, EMPTY] AI True (- 999) 999 =
     Some ([HUMAN, AI, HUMAN, AI, EMPTY, EMPTY, EMPTY, EMPTY, EMPTY],
           Inr (plain_minimax [HUMAN, AI, HUMAN, AI, EMPTY, EMPTY, EMPTY, EMPTY, EMPTY] AI True))"
  using pruning_equivalence[of "[HUMAN, AI, HUMAN, AI, EMPTY, EMPTY, EMPTY, EMPTY, EMPTY]" 11 AI True]
  by simp

text \<open>
  C7. If \<open>winner\<close> reports Undecided (\<open>None\<close>) then \<open>available_moves\<close> is not empty: no
  board is at once undecided and without an \<open>EMPTY\<close> cell. This holds for a board of any
  length, so for every 9-cell board.
\<close>

theorem undecided_has_moves:
  "winner board = Inr None \<Longrightarrow> available_moves board \<noteq> []"
  by (rule winner_None_moves)

theorem undecided_has_moves_witness:
  "winner [HUMAN, AI, EMPTY, EMPTY, EMPTY, EMPTY, EMPTY, EMPTY, EMPTY] = Inr None \<and>
   available_moves [HUMAN, AI, EMPTY, EMPTY, EMPTY, EMPTY, EMPTY, EMPTY, EMPTY] \<noteq> []"
proof -
  have h: "winner [HUMAN, AI, EMPTY, EMPTY, EMPTY, EMPTY, EMPTY, EMPTY, EMPTY] = Inr None"
    by (simp only: eval_rules cong: eval_congs)
  from undecided_has_moves[OF h] h show ?thesis by simp
qed

text \<open>
  C10. For every 9-cell board and every player, flag and window, \<open>minimax\<close> returns a
  score in {-1, 0, 1}, never one of the sentinels -999 and 999. On an undecided board the
  returned move is an \<open>EMPTY\<close> cell of the board; on a decided board it is \<open>None\<close>.
\<close>

theorem search_score_and_move:
  assumes "length board = 9" and "11 \<le> n"
  shows "\<exists>score move.
     minimax n board player maximizing alpha beta = Some (board, Inr (score, move)) \<and>
     score \<in> {- 1, 0, 1} \<and>
     (winner board = Inr None \<longrightarrow>
        (\<exists>m. move = Some m \<and> m < length board \<and> board ! m = EMPTY)) \<and>
     (winner board \<noteq> Inr None \<longrightarrow> move = None)"
proof -
  note dep = depth_11[OF assms, of player]
  obtain score move where r: "search_result n board player maximizing alpha beta = (score, move)"
    by (cases "search_result n board player maximizing alpha beta")
  from search_range[OF assms(1) dep, of maximizing alpha beta] r
  have "score \<in> {- 1, 0, 1}"
    and "winner board = Inr None \<longrightarrow> move \<in> Some ` set (available_moves board)"
    and "winner board \<noteq> Inr None \<longrightarrow> move = None"
    by simp_all
  moreover from minimax_result[OF assms(1) dep, of maximizing alpha beta] r
  have "minimax n board player maximizing alpha beta = Some (board, Inr (score, move))"
    by simp
  ultimately show ?thesis
    by (auto simp: set_available_moves)
qed

theorem search_score_and_move_witness:
  "length [HUMAN, AI, EMPTY, EMPTY, EMPTY, EMPTY, EMPTY, EMPTY, EMPTY] = 9 \<and> (11::nat) \<le> 11 \<and>
   winner [HUMAN, AI, EMPTY, EMPTY, EMPTY, EMPTY, EMPTY, EMPTY, EMPTY] = Inr None \<and>
   (\<exists>score m.
      minimax 11 [HUMAN, AI, EMPTY, EMPTY, EMPTY, EMPTY, EMPTY, EMPTY, EMPTY] HUMAN False 0 1 =
        Some ([HUMAN, AI, EMPTY, EMPTY, EMPTY, EMPTY, EMPTY, EMPTY, EMPTY], Inr (score, Some m)) \<and>
      score \<in> {- 1, 0, 1} \<and>
      [HUMAN, AI, EMPTY, EMPTY, EMPTY, EMPTY, EMPTY, EMPTY, EMPTY] ! m = EMPTY)"
proof -
  have h: "winner [HUMAN, AI, EMPTY, EMPTY, EMPTY, EMPTY, EMPTY, EMPTY, EMPTY] = Inr None"
    by (simp only: eval_rules cong: eval_congs)
  from search_score_and_move[of "[HUMAN, AI, EMPTY, EMPTY, EMPTY, EMPTY, EMPTY, EMPTY, EMPTY]"
      11 HUMAN False 0 1] h
  show ?thesis by auto
qed

text \<open>
  C3. For every 9-cell board and every player, flag and window, \<open>minimax\<close> returns and
  leaves the board exactly as it was, and so does \<open>ai_move\<close> (also when it ends in the
  ValueError of a board without \<open>EMPTY\<close> cells): every write of a cell has been undone,
  on the cutoff exits too. Hence a second call with the same arguments runs on the same
  board and returns the same result.
\<close>

theorem board_unchanged:
  assumes "length board = 9" and "11 \<le> n"
  shows "(\<exists>r. minimax n board player maximizing alpha beta = Some (board, Inr r)) \<and>
     (\<exists>r. ai_move n board = Some (board, r)) \<and>
     (\<forall>board' r. minimax n board player maximizing alpha beta = Some (board', r) \<longrightarrow>
        board' = board \<and> minimax n board' player maximizing alpha beta = Some (board', r)) \<and>
     (\<forall>board' r. ai_move n board = Some (board', r) \<longrightarrow>
        board' = board \<and> ai_move n board' = Some (board', r))"
proof -
  have 1: "\<exists>r. minimax n board player maximizing alpha beta = Some (board, Inr r)"
    by (rule minimax_returns[OF assms(1) depth_11[OF assms]])
  have 2: "\<exists>r. ai_move n board = Some (board, r)"
  proof (cases "EMPTY \<in> set board")
    case True
    from ai_move_choice[OF assms True] show ?thesis by blast
  next
    case False
    then show ?thesis by (simp add: ai_move_full)
  qed
  from 1 obtain r1 where r1: "minimax n board player maximizing alpha beta = Some (board, Inr r1)" ..
  from 2 obtain r2 where r2: "ai_move n board = Some (board, r2)" ..
  have 3: "\<forall>board' r. minimax n board player maximizing alpha beta = Some (board', r) \<longrightarrow>
        board' = board \<and> minimax n board' player maximizing alpha beta = Some (board', r)"
    using r1 by auto
  have 4: "\<forall>board' r. ai_move n board = Some (board', r) \<longrightarrow>
        board' = board \<and> ai_move n board' = Some (board', r)"
    using r2 by auto
  from 1 2 3 4 show ?thesis by (intro conjI)
qed

theorem board_unchanged_witness:
  "length [HUMAN, AI, HUMAN, AI, EMPTY, EMPTY, EMPTY, EMPTY, EMPTY] = 9 \<and> (11::nat) \<le> 11 \<and>
   (\<exists>r. minimax 11 [HUMAN, AI, HUMAN, AI, EMPTY, EMPTY, EMPTY, EMPTY, EMPTY] AI True 0 1 =
          Some ([HUMAN, AI, HUMAN, AI, EMPTY, EMPTY, EMPTY, EMPTY, EMPTY], Inr r)) \<and>
   (\<exists>r. ai_move 11 [HUMAN, AI, HUMAN, AI, EMPTY, EMPTY, EMPTY, EMPTY, EMPTY] =
          Some ([HUMAN, AI, HUMAN, AI, EMPTY, EMPTY, EMPTY, EMPTY, EMPTY], r))"
proof -
  have l: "length [HUMAN, AI, HUMAN, AI, EMPTY, EMPTY, EMPTY, EMPTY, EMPTY] = 9" by simp
  have n: "(11::nat) \<le> 11" by simp
  from board_unchanged[OF l n, of AI True 0 1] l n show ?thesis by blast
qed

text \<open>
  C4. On a 9-cell board with at least one \<open>EMPTY\<close> cell, \<open>ai_move\<close> scores every
  candidate of \<open>available_moves\<close> by writing \<open>AI\<close> into the cell and searching with
  \<open>HUMAN\<close> to move, minimizing, over the full window; it returns the probability
  (wins + 0.5 * draws) / total, where total is the number of candidates, wins the number
  of scores equal to 1 and draws the number equal to 0. The probability lies between 0
  and 1. (The quotient is the exact one; Python returns the double nearest to it.)
\<close>

theorem probability_formula:
  assumes "length board = 9" and "11 \<le> n" and "EMPTY \<in> set board"
  shows "\<exists>move prob outcomes.
     ai_move n board = Some (board, Inr (move, prob)) \<and>
     outcomes = map (\<lambda>m. search_score n (board[m := AI]) HUMAN False) (available_moves board) \<and>
     (\<forall>m \<in> set (available_moves board). \<exists>reply.
        minimax n (board[m := AI]) HUMAN False (- 999) 999 =
          Some (board[m := AI], Inr (search_score n (board[m := AI]) HUMAN False, reply))) \<and>
     length outcomes = length (available_moves board) \<and> 0 < length outcomes \<and>
     prob = (real (count_list outcomes 1) + 0.5 * real (count_list outcomes 0)) /
            real (length outcomes) \<and>
     0 \<le> prob \<and> prob \<le> 1"
proof -
  let ?ms = "available_moves board"
  let ?os = "map (\<lambda>m. search_score n (board[m := AI]) HUMAN False) ?ms"
  have os: "?os = map (\<lambda>m. plain_value (board[m := AI]) HUMAN False) ?ms"
    by (simp add: child_score_plain[OF assms(1,2)])
  from ai_move_first_best[OF assms] obtain move where
    mv: "ai_move n board = Some (board, Inr (move, win_probability ?os))"
    unfolding os by blast
  have ne: "?ms \<noteq> []" using assms(3) by (simp add: available_moves_empty_iff)
  have run: "\<exists>reply. minimax n (board[m := AI]) HUMAN False (- 999) 999 =
          Some (board[m := AI], Inr (search_score n (board[m := AI]) HUMAN False, reply))" for m
  proof -
    have len: "length (board[m := AI]) = 9" using assms(1) by simp
    from minimax_result[OF len depth_11[OF len assms(2)], where maximizing = False
        and alpha = "- 999" and beta = 999 and player = HUMAN]
    show ?thesis by (cases "search_result n (board[m := AI]) HUMAN False (- 999) 999")
        (simp add: search_score_def)
  qed
  have "win_probability ?os = (real (count_list ?os 1) + 0.5 * real (count_list ?os 0)) /
            real (length ?os)"
    using ne by (simp add: win_probability_def Let_def)
  with mv run ne win_probability_bounds[of ?os] show ?thesis
    by (intro exI[of _ move] exI[of _ "win_probability ?os"] exI[of _ ?os]) simp
qed

theorem probability_formula_witness:
  "length [HUMAN, AI, HUMAN, AI, EMPTY, EMPTY, EMPTY, EMPTY, EMPTY] = 9 \<and> (11::nat) \<le> 11 \<and>
   EMPTY \<in> set [HUMAN, AI, HUMAN, AI, EMPTY, EMPTY, EMPTY, EMPTY, EMPTY] \<and>
   (\<exists>move prob. ai_move 11 [HUMAN, AI, HUMAN, AI, EMPTY, EMPTY, EMPTY, EMPTY, EMPTY] =
       Some ([HUMAN, AI, HUMAN, AI, EMPTY, EMPTY, EMPTY, EMPTY, EMPTY], Inr (move, prob)) \<and>
     0 \<le> prob \<and> prob \<le> 1)"
  using probability_formula[of "[HUMAN, AI, HUMAN, AI, EMPTY, EMPTY, EMPTY, EMPTY, EMPTY]" 11]
  by auto

text \<open>
  C5. Ties go to the first move in ascending cell order. On an undecided 9-cell board,
  \<open>minimax\<close> with the full window reports, when maximizing, a move whose score is the
  returned value while every candidate with a smaller index scores strictly less and no
  candidate scores more (the running best is replaced only by a strictly greater
  score); when minimizing, the same with the order reversed. \<open>ai_move\<close> reports a
  candidate with the greatest recorded score such that every candidate with a smaller
  index scores strictly less. A candidate's score is the score of the full-window search
  of the board after the move.
\<close>

theorem ties_first_occurrence:
  assumes "length board = 9" and "11 \<le> n"
  shows "(winner board = Inr None \<longrightarrow>
      (\<exists>v m. minimax n board player True (- 999) 999 = Some (board, Inr (v, Some m)) \<and>
         m \<in> set (available_moves board) \<and>
         search_score n (board[m := player]) (if player = AI then HUMAN else AI) False = v \<and>
         (\<forall>m' \<in> set (available_moves board).
            search_score n (board[m' := player]) (if player = AI then HUMAN else AI) False \<le> v \<and>
            (m' < m \<longrightarrow>
             search_score n (board[m' := player]) (if player = AI then HUMAN else AI) False < v)))) \<and>
     (winner board = Inr None \<longrightarrow>
      (\<exists>v m. minimax n board player False (- 999) 999 = Some (board, Inr (v, Some m)) \<and>
         m \<in> set (available_moves board) \<and>
         search_score n (board[m := player]) (if player = AI then HUMAN else AI) True = v \<and>
         (\<forall>m' \<in> set (available_moves board).
            v \<le> search_score n (board[m' := player]) (if player = AI then HUMAN else AI) True \<and>
            (m' < m \<longrightarrow>
             v < search_score n (board[m' := player]) (if player = AI then HUMAN else AI) True)))) \<and>
     (EMPTY \<in> set board \<longrightarrow>
      (\<exists>move prob. ai_move n board = Some (board, Inr (move, prob)) \<and>
         move \<in> set (available_moves board) \<and>
         (\<forall>m' \<in> set (available_moves board).
            search_score n (board[m' := AI]) HUMAN False \<le>
              search_score n (board[move := AI]) HUMAN False \<and>
            (m' < move \<longrightarrow>
             search_score n (board[m' := AI]) HUMAN False <
               search_score n (board[move := AI]) HUMAN False))))"
proof -
  note full = minimax_full[OF assms(1) depth_11[OF assms]]
  note cs = child_score_plain[OF assms]
  have 1: "\<exists>v m. minimax n board player True (- 999) 999 = Some (board, Inr (v, Some m)) \<and>
         m \<in> set (available_moves board) \<and>
         search_score n (board[m := player]) (if player = AI then HUMAN else AI) False = v \<and>
         (\<forall>m' \<in> set (available_moves board).
            search_score n (board[m' := player]) (if player = AI then HUMAN else AI) False \<le> v \<and>
            (m' < m \<longrightarrow>
             search_score n (board[m' := player]) (if player = AI then HUMAN else AI) False < v))"
    if "winner board = Inr None"
  proof -
    from plain_first_max[OF that, of player] obtain m where
      m: "plain_minimax board player True = (plain_value board player True, Some m)"
        "m \<in> set (available_moves board)"
        "plain_value (board[m := player]) (if player = AI then HUMAN else AI) False =
           plain_value board player True"
        "\<forall>m' \<in> set (available_moves board).
           plain_value (board[m' := player]) (if player = AI then HUMAN else AI) False
             \<le> plain_value board player True \<and>
           (m' < m \<longrightarrow>
            plain_value (board[m' := player]) (if player = AI then HUMAN else AI) False
              < plain_value board player True)"
      by (elim exE conjE)
    show ?thesis
      using m unfolding full cs
      by (intro exI[of _ "plain_value board player True"] exI[of _ m]) simp
  qed
  have 2: "\<exists>v m. minimax n board player False (- 999) 999 = Some (board, Inr (v, Some m)) \<and>
         m \<in> set (available_moves board) \<and>
         search_score n (board[m := player]) (if player = AI then HUMAN else AI) True = v \<and>
         (\<forall>m' \<in> set (available_moves board).
            v \<le> search_score n (board[m' := player]) (if player = AI then HUMAN else AI) True \<and>
            (m' < m \<longrightarrow>
             v < search_score n (board[m' := player]) (if player = AI then HUMAN else AI) True))"
    if "winner board = Inr None"
  proof -
    from plain_first_min[OF that, of player] obtain m where
      m: "plain_minimax board player False = (plain_value board player False, Some m)"
        "m \<in> set (available_moves board)"
        "plain_value (board[m := player]) (if player = AI then HUMAN else AI) True =
           plain_value board player False"
        "\<forall>m' \<in> set (available_moves board).
           plain_value board player False
             \<le> plain_value (board[m' := player]) (if player = AI then HUMAN else AI) True \<and>
           (m' < m \<longrightarrow>
            plain_value board player False
              < plain_value (board[m' := player]) (if player = AI then HUMAN else AI) True)"
      by (elim exE conjE)
    show ?thesis
      using m unfolding full cs
      by (intro exI[of _ "plain_value board player False"] exI[of _ m]) simp
  qed
  have 3: "\<exists>move prob. ai_move n board = Some (board, Inr (move, prob)) \<and>
         move \<in> set (available_moves board) \<and>
         (\<forall>m' \<in> set (available_moves board).
            search_score n (board[m' := AI]) HUMAN False \<le>
              search_score n (board[move := AI]) HUMAN False \<and>
            (m' < move \<longrightarrow>
             search_score n (board[m' := AI]) HUMAN False <
               search_score n (board[move := AI]) HUMAN False))"
    if "EMPTY \<in> set board"
  proof -
    from ai_move_first_best[OF assms that] obtain move where
      mv: "ai_move n board = Some (board, Inr (move, win_probability
             (map (\<lambda>m. plain_value (board[m := AI]) HUMAN False) (available_moves board))))"
        "move \<in> set (available_moves board)"
        "\<forall>m' \<in> set (available_moves board).
           plain_value (board[m' := AI]) HUMAN False \<le> plain_value (board[move := AI]) HUMAN False \<and>
           (m' < move \<longrightarrow>
            plain_value (board[m' := AI]) HUMAN False < plain_value (board[move := AI]) HUMAN False)"
      by (elim exE conjE)
    show ?thesis
      using mv unfolding cs
      by (intro exI[of _ move] exI[of _ "win_probability
             (map (\<lambda>m. plain_value (board[m := AI]) HUMAN False) (available_moves board))"]) simp
  qed
  from 1 2 3 show ?thesis by (intro conjI impI)
qed

theorem ties_first_occurrence_witness:
  "length [HUMAN, AI, EMPTY, EMPTY, EMPTY, EMPTY, EMPTY, EMPTY, EMPTY] = 9 \<and> (11::nat) \<le> 11 \<and>
   winner [HUMAN, AI, EMPTY, EMPTY, EMPTY, EMPTY, EMPTY, EMPTY, EMPTY] = Inr None \<and>
   EMPTY \<in> set [HUMAN, AI, EMPTY, EMPTY, EMPTY, EMPTY, EMPTY, EMPTY, EMPTY] \<and>
   (\<exists>v m. minimax 11 [HUMAN, AI, EMPTY, EMPTY, EMPTY, EMPTY, EMPTY, EMPTY, EMPTY] AI True
             (- 999) 999 =
           Some ([HUMAN, AI, EMPTY, EMPTY, EMPTY, EMPTY, EMPTY, EMPTY, EMPTY], Inr (v, Some m)) \<and>
           m \<in> set (available_moves [HUMAN, AI, EMPTY, EMPTY, EMPTY, EMPTY, EMPTY, EMPTY, EMPTY])) \<and>
   (\<exists>move prob. ai_move 11 [HUMAN, AI, EMPTY, EMPTY, EMPTY, EMPTY, EMPTY, EMPTY, EMPTY] =
           Some ([HUMAN, AI, EMPTY, EMPTY, EMPTY, EMPTY, EMPTY, EMPTY, EMPTY], Inr (move, prob)) \<and>
           move \<in> set (available_moves [HUMAN, AI, EMPTY, EMPTY, EMPTY, EMPTY, EMPTY, EMPTY, EMPTY]))"
proof -
  have l: "length [HUMAN, AI, EMPTY, EMPTY, EMPTY, EMPTY, EMPTY, EMPTY, EMPTY] = 9" by simp
  have n: "(11::nat) \<le> 11" by simp
  have h: "winner [HUMAN, AI, EMPTY, EMPTY, EMPTY, EMPTY, EMPTY, EMPTY, EMPTY] = Inr None"
    by (simp only: eval_rules cong: eval_congs)
  have e: "EMPTY \<in> set [HUMAN, AI, EMPTY, EMPTY, EMPTY, EMPTY, EMPTY, EMPTY, EMPTY]" by simp
  note t = ties_first_occurrence[OF l n, of AI]
  from t h have 1: "\<exists>v m. minimax 11 [HUMAN, AI, EMPTY, EMPTY, EMPTY, EMPTY, EMPTY, EMPTY, EMPTY] AI True
             (- 999) 999 =
           Some ([HUMAN, AI, EMPTY, EMPTY, EMPTY, EMPTY, EMPTY, EMPTY, EMPTY], Inr (v, Some m)) \<and>
           m \<in> set (available_moves [HUMAN, AI, EMPTY, EMPTY, EMPTY, EMPTY, EMPTY, EMPTY, EMPTY])"
    by blast
  from t e have 2: "\<exists>move prob. ai_move 11 [HUMAN, AI, EMPTY, EMPTY, EMPTY, EMPTY, EMPTY, EMPTY, EMPTY] =
           Some ([HUMAN, AI, EMPTY, EMPTY, EMPTY, EMPTY, EMPTY, EMPTY, EMPTY], Inr (move, prob)) \<and>
           move \<in> set (available_moves [HUMAN, AI, EMPTY, EMPTY, EMPTY, EMPTY, EMPTY, EMPTY, EMPTY])"
    by blast
  from l n h e 1 2 show ?thesis by (intro conjI)
qed

text \<open>
  C6. On a board without an \<open>EMPTY\<close> cell \<open>ai_move\<close> does not divide by zero: with no
  outcome recorded the probability expression is 0; and the call does not return a
  (move, probability) pair but fails, with the ValueError that \<open>max\<close> raises on the empty
  list of outcomes. The board is left as it was.
\<close>

theorem no_candidate_fails:
  assumes "EMPTY \<notin> set board"
  shows "ai_move n board = Some (board, Inl ValueError) \<and> win_probability [] = 0"
  using assms by (simp add: ai_move_full win_probability_def)

theorem no_candidate_fails_witness:
  "EMPTY \<notin> set [HUMAN, AI, HUMAN, AI, AI, HUMAN, HUMAN, HUMAN, AI] \<and>
   ai_move 11 [HUMAN, AI, HUMAN, AI, AI, HUMAN, HUMAN, HUMAN, AI] =
     Some ([HUMAN, AI, HUMAN, AI, AI, HUMAN, HUMAN, HUMAN, AI], Inl ValueError) \<and>
   win_probability [] = 0"
proof -
  have h: "EMPTY \<notin> set [HUMAN, AI, HUMAN, AI, AI, HUMAN, HUMAN, HUMAN, AI]"
    by (simp add: cell_neq)
  from no_candidate_fails[OF h, of 11] h show ?thesis by simp
qed

text \<open>
  C9, as stated: on the all-\<open>EMPTY\<close> 9-cell board \<open>ai_move\<close> returns probability exactly
  1.0. It does not. Each of the nine candidates scores 0 (a draw under best play), none
  scores 1, and a draw counts half: the probability is (0 + 0.5 * 9) / 9 = 0.5, exact
  also in doubles. The move returned is cell 0.
\<close>

theorem empty_board_probability_counterexample:
  "ai_move 11 [EMPTY, EMPTY, EMPTY, EMPTY, EMPTY, EMPTY, EMPTY, EMPTY, EMPTY] =
     Some ([EMPTY, EMPTY, EMPTY, EMPTY, EMPTY, EMPTY, EMPTY, EMPTY, EMPTY], Inr (0, 1 / 2)) \<and>
   (1 / 2 :: real) \<noteq> 1"
  using ai_move_empty[of 11] by simp

text \<open>
  C9, amended: on the all-\<open>EMPTY\<close> 9-cell board \<open>ai_move\<close> returns cell 0 and the
  probability exactly 0.5, and leaves the board as it was.
\<close>

theorem empty_board_probability:
  assumes "11 \<le> n"
  shows "ai_move n [EMPTY, EMPTY, EMPTY, EMPTY, EMPTY, EMPTY, EMPTY, EMPTY, EMPTY] =
     Some ([EMPTY, EMPTY, EMPTY, EMPTY, EMPTY, EMPTY, EMPTY, EMPTY, EMPTY], Inr (0, 1 / 2))"
  using assms by (rule ai_move_empty)

theorem empty_board_probability_witness:
  "(11::nat) \<le> 11 \<and>
   ai_move 11 [EMPTY, EMPTY, EMPTY, EMPTY, EMPTY, EMPTY, EMPTY, EMPTY, EMPTY] =
     Some ([EMPTY, EMPTY, EMPTY, EMPTY, EMPTY, EMPTY, EMPTY, EMPTY, EMPTY], Inr (0, 1 / 2))"
proof -
  have n: "(11::nat) \<le> 11" by simp
  from empty_board_probability[OF n] n show ?thesis by (intro conjI)
qed

text \<open>
  C8. A game of self-play from the all-\<open>EMPTY\<close> board, in which the automated side
  plays the move \<open>ai_move\<close> returns, runs to its end and ends in a draw or a win of the
  automated side, never in a loss: against the minimax-optimal opponent
  (\<open>optimal_reply\<close>), and against any opponent that moves to an \<open>EMPTY\<close> cell, whichever
  side moves first. Ten plies and fuel 11 are enough.
\<close>

theorem self_play_never_lost:
  assumes "11 \<le> n" and "10 \<le> k"
  shows "(\<forall>opp. (\<forall>b. length b = 9 \<and> winner b = Inr None \<longrightarrow> opp b \<in> set (available_moves b)) \<longrightarrow>
       (\<exists>w. self_play k n opp [EMPTY, EMPTY, EMPTY, EMPTY, EMPTY, EMPTY, EMPTY, EMPTY, EMPTY]
               ai_first = Some (Inr w) \<and> (w = AI \<or> w = ''Draw''))) \<and>
     (\<exists>w. self_play k n (optimal_reply n)
             [EMPTY, EMPTY, EMPTY, EMPTY, EMPTY, EMPTY, EMPTY, EMPTY, EMPTY] ai_first =
           Some (Inr w) \<and> (w = AI \<or> w = ''Draw''))"
proof (intro conjI allI impI)
  fix opp :: "board \<Rightarrow> nat"
  assume "\<forall>b. length b = 9 \<and> winner b = Inr None \<longrightarrow> opp b \<in> set (available_moves b)"
  from self_play_empty[OF assms this]
  show "\<exists>w. self_play k n opp [EMPTY, EMPTY, EMPTY, EMPTY, EMPTY, EMPTY, EMPTY, EMPTY, EMPTY]
               ai_first = Some (Inr w) \<and> (w = AI \<or> w = ''Draw'')" .
next
  have "\<forall>b. length b = 9 \<and> winner b = Inr None \<longrightarrow>
          optimal_reply n b \<in> set (available_moves b)"
    using optimal_reply_legal[OF _ assms(1)] by blast
  from self_play_empty[OF assms this]
  show "\<exists>w. self_play k n (optimal_reply n)
             [EMPTY, EMPTY, EMPTY, EMPTY, EMPTY, EMPTY, EMPTY, EMPTY, EMPTY] ai_first =
           Some (Inr w) \<and> (w = AI \<or> w = ''Draw'')" .
qed

theorem self_play_never_lost_witness:
  "(11::nat) \<le> 11 \<and> (10::nat) \<le> 10 \<and>
   (\<exists>w. self_play 10 11 (optimal_reply 11)
           [EMPTY, EMPTY, EMPTY, EMPTY, EMPTY, EMPTY, EMPTY, EMPTY, EMPTY] True =
         Some (Inr w) \<and> (w = AI \<or> w = ''Draw'')) \<and>
   (\<exists>w. self_play 10 11 (optimal_reply 11)
           [EMPTY, EMPTY, EMPTY, EMPTY, EMPTY, EMPTY, EMPTY, EMPTY, EMPTY] False =
         Some (Inr w) \<and> (w = AI \<or> w = ''Draw''))"
proof -
  have n: "(11::nat) \<le> 11" and k: "(10::nat) \<le> 10" by simp_all
  have legal: "\<forall>b. length b = 9 \<and> winner b = Inr None \<longrightarrow>
          optimal_reply 11 b \<in> set (available_moves b)"
    using optimal_reply_legal[OF _ n] by blast
  from self_play_never_lost[OF n k, of True] legal
  have 1: "\<exists>w. self_play 10 11 (optimal_reply 11)
           [EMPTY, EMPTY, EMPTY, EMPTY, EMPTY, EMPTY, EMPTY, EMPTY, EMPTY] True =
         Some (Inr w) \<and> (w = AI \<or> w = ''Draw'')" by blast
  from self_play_never_lost[OF n k, of False] legal
  have 2: "\<exists>w. self_play 10 11 (optimal_reply 11)
           [EMPTY, EMPTY, EMPTY, EMPTY, EMPTY, EMPTY, EMPTY, EMPTY, EMPTY] False =
         Some (Inr w) \<and> (w = AI \<or> w = ''Draw'')" by blast
  from n k 1 2 show ?thesis by (intro conjI)
qed

text \<open>
  C2, as stated: for every 9-cell board, \<open>winner\<close> returns a side exactly when one of the
  eight win-lines has all three cells equal to that side. On the board with the top row
  held by \<open>HUMAN\<close> and the middle row held by \<open>AI\<close> a line has all three cells equal to
  \<open>AI\<close>, yet \<open>winner\<close> returns \<open>HUMAN\<close>: the loop returns at the first held line.
\<close>

theorem winner_two_lines_counterexample:
  "length [HUMAN, HUMAN, HUMAN, AI, AI, AI, EMPTY, EMPTY, EMPTY] = 9 \<and>
   holds_line [HUMAN, HUMAN, HUMAN, AI, AI, AI, EMPTY, EMPTY, EMPTY] AI \<and>
   winner [HUMAN, HUMAN, HUMAN, AI, AI, AI, EMPTY, EMPTY, EMPTY] = Inr (Some HUMAN) \<and>
   winner [HUMAN, HUMAN, HUMAN, AI, AI, AI, EMPTY, EMPTY, EMPTY] \<noteq> Inr (Some AI)"
  using two_winners cell_neq by simp

text \<open>
  C2, amended: for every 9-cell board, \<open>winner\<close> returns the side that holds the first
  held line in the order of \<open>WIN_LINES\<close> (a line is held when its three cells are equal
  and not \<open>EMPTY\<close>). So it returns a side that holds a line exactly when some line is
  held, and it returns side \<open>s\<close> whenever \<open>s\<close> is the only side holding a line; a side it
  returns, other than the string "Draw", holds a line. If no line is held and the board
  has no \<open>EMPTY\<close> cell it returns "Draw"; if no line is held and an \<open>EMPTY\<close> cell remains
  it returns \<open>None\<close>. It never raises on such a board.
\<close>

theorem winner_outcome:
  assumes "length board = 9"
  shows "(\<forall>i s. i < length WIN_LINES \<and> s \<noteq> EMPTY \<and> line_held board s (WIN_LINES ! i) \<and>
            (\<forall>j < i. \<forall>t. t \<noteq> EMPTY \<longrightarrow> \<not> line_held board t (WIN_LINES ! j)) \<longrightarrow>
          winner board = Inr (Some s)) \<and>
     ((\<exists>s. holds_line board s) \<longleftrightarrow> (\<exists>s. holds_line board s \<and> winner board = Inr (Some s))) \<and>
     (\<forall>s. holds_line board s \<and> (\<forall>t. holds_line board t \<longrightarrow> t = s) \<longrightarrow>
          winner board = Inr (Some s)) \<and>
     (\<forall>s. winner board = Inr (Some s) \<and> s \<noteq> ''Draw'' \<longrightarrow> holds_line board s) \<and>
     (\<not> (\<exists>s. holds_line board s) \<and> EMPTY \<notin> set board \<longrightarrow> winner board = Inr (Some ''Draw'')) \<and>
     (\<not> (\<exists>s. holds_line board s) \<and> EMPTY \<in> set board \<longrightarrow> winner board = Inr None)"
proof (intro conjI allI impI)
  fix i s
  assume "i < length WIN_LINES \<and> s \<noteq> EMPTY \<and> line_held board s (WIN_LINES ! i) \<and>
            (\<forall>j < i. \<forall>t. t \<noteq> EMPTY \<longrightarrow> \<not> line_held board t (WIN_LINES ! j))"
  then show "winner board = Inr (Some s)"
    using winner_at_first[OF assms, of i s] by blast
next
  show "(\<exists>s. holds_line board s) \<longleftrightarrow> (\<exists>s. holds_line board s \<and> winner board = Inr (Some s))"
    using winner_some_holder[OF assms] by blast
next
  fix s
  assume "holds_line board s \<and> (\<forall>t. holds_line board t \<longrightarrow> t = s)"
  with winner_some_holder[OF assms, of s] show "winner board = Inr (Some s)" by auto
next
  fix s
  assume "winner board = Inr (Some s) \<and> s \<noteq> ''Draw''"
  with winner_side_holds[OF assms, of s] show "holds_line board s" by blast
next
  assume "\<not> (\<exists>s. holds_line board s) \<and> EMPTY \<notin> set board"
  with winner_no_holder[OF assms] show "winner board = Inr (Some ''Draw'')" by simp
next
  assume "\<not> (\<exists>s. holds_line board s) \<and> EMPTY \<in> set board"
  with winner_no_holder[OF assms] show "winner board = Inr None" by simp
qed

theorem winner_outcome_witness:
  "length [HUMAN, HUMAN, HUMAN, AI, AI, EMPTY, EMPTY, EMPTY, EMPTY] = 9 \<and>
   (0::nat) < length WIN_LINES \<and> HUMAN \<noteq> EMPTY \<and>
   line_held [HUMAN, HUMAN, HUMAN, AI, AI, EMPTY, EMPTY, EMPTY, EMPTY] HUMAN (WIN_LINES ! 0) \<and>
   winner [HUMAN, HUMAN, HUMAN, AI, AI, EMPTY, EMPTY, EMPTY, EMPTY] = Inr (Some HUMAN)"
proof -
  let ?B = "[HUMAN, HUMAN, HUMAN, AI, AI, EMPTY, EMPTY, EMPTY, EMPTY]"
  have l: "length ?B = 9" by simp
  have i: "(0::nat) < length WIN_LINES" by (simp add: WIN_LINES_def)
  have s: "HUMAN \<noteq> EMPTY" by (rule cell_neq)
  have h: "line_held ?B HUMAN (WIN_LINES ! 0)" by (simp add: line_held_def WIN_LINES_def)
  have none: "\<forall>j < (0::nat). \<forall>t. t \<noteq> EMPTY \<longrightarrow> \<not> line_held ?B t (WIN_LINES ! j)" by simp
  from winner_outcome[OF l] i s h none
  have "winner ?B = Inr (Some HUMAN)" by blast
  with l i s h show ?thesis by (intro conjI)
qed

end
